theory Spec2Isabelle
  imports Complex_Main "HOL-Library.Word"
begin

section \<open>JavaScript strings\<close>

text \<open>
  A JavaScript string is a finite sequence of 16-bit code units.  Source literals are
  ASCII and are written with \<open>js\<close>.
\<close>

type_synonym code_unit = "16 word"
type_synonym jsstring = "code_unit list"

definition js :: "string \<Rightarrow> jsstring" where
  "js s = map of_char s"

text \<open>
  \<open>String.prototype.trim\<close> removes WhiteSpace and LineTerminator code units from both
  ends: TAB, LF, VT, FF, CR, SP, NBSP, U+1680, U+2000..U+200A, U+2028, U+2029, U+202F,
  U+205F, U+3000 and U+FEFF.
\<close>

definition isWhiteSpace :: "code_unit \<Rightarrow> bool" where
  "isWhiteSpace c \<longleftrightarrow>
     c = 0x09 \<or> c = 0x0A \<or> c = 0x0B \<or> c = 0x0C \<or> c = 0x0D \<or> c = 0x20 \<or> c = 0xA0 \<or>
     c = 0x1680 \<or> (0x2000 \<le> c \<and> c \<le> 0x200A) \<or> c = 0x2028 \<or> c = 0x2029 \<or>
     c = 0x202F \<or> c = 0x205F \<or> c = 0x3000 \<or> c = 0xFEFF"

definition trimStart :: "jsstring \<Rightarrow> jsstring" where
  "trimStart s = dropWhile isWhiteSpace s"

definition trimEnd :: "jsstring \<Rightarrow> jsstring" where
  "trimEnd s = rev (dropWhile isWhiteSpace (rev s))"

definition trim :: "jsstring \<Rightarrow> jsstring" where
  "trim s = trimEnd (trimStart s)"

definition startsWith :: "jsstring \<Rightarrow> jsstring \<Rightarrow> bool" where
  "startsWith s p \<longleftrightarrow> take (length p) s = p"

definition isDigit :: "code_unit \<Rightarrow> bool" where
  "isDigit c \<longleftrightarrow> 0x30 \<le> c \<and> c \<le> 0x39"

definition isUpper :: "code_unit \<Rightarrow> bool" where
  "isUpper c \<longleftrightarrow> 0x41 \<le> c \<and> c \<le> 0x5A"

definition isLower :: "code_unit \<Rightarrow> bool" where
  "isLower c \<longleftrightarrow> 0x61 \<le> c \<and> c \<le> 0x7A"

section \<open>URI component escaping\<close>

datatype error = URIError

text \<open>
  The characters \<open>encodeURIComponent\<close> leaves alone: letters, digits and
  \<open>- _ . ! ~ * ' ( )\<close>.
\<close>

definition uriUnescaped :: "code_unit \<Rightarrow> bool" where
  "uriUnescaped c \<longleftrightarrow>
     isUpper c \<or> isLower c \<or> isDigit c \<or>
     c = 0x2D \<or> c = 0x5F \<or> c = 0x2E \<or> c = 0x21 \<or> c = 0x7E \<or> c = 0x2A \<or>
     c = 0x27 \<or> c = 0x28 \<or> c = 0x29"

definition isLeadSurrogate :: "code_unit \<Rightarrow> bool" where
  "isLeadSurrogate c \<longleftrightarrow> 0xD800 \<le> c \<and> c \<le> 0xDBFF"

definition isTrailSurrogate :: "code_unit \<Rightarrow> bool" where
  "isTrailSurrogate c \<longleftrightarrow> 0xDC00 \<le> c \<and> c \<le> 0xDFFF"

definition hexDigit :: "nat \<Rightarrow> code_unit" where
  "hexDigit n = (if n < 10 then 0x30 + of_nat n else 0x41 + of_nat (n - 10))"

definition escapeOctet :: "nat \<Rightarrow> jsstring" where
  "escapeOctet b = [0x25, hexDigit (b div 16), hexDigit (b mod 16)]"

definition utf8Encode :: "nat \<Rightarrow> nat list" where
  "utf8Encode cp =
     (if cp < 0x80 then [cp]
      else if cp < 0x800 then [0xC0 + cp div 64, 0x80 + cp mod 64]
      else if cp < 0x10000 then
        [0xE0 + cp div 4096, 0x80 + (cp div 64) mod 64, 0x80 + cp mod 64]
      else
        [0xF0 + cp div 262144, 0x80 + (cp div 4096) mod 64,
         0x80 + (cp div 64) mod 64, 0x80 + cp mod 64])"

definition surrogatePair :: "code_unit \<Rightarrow> code_unit \<Rightarrow> nat" where
  "surrogatePair lead trail =
     (unat lead - 0xD800) * 0x400 + (unat trail - 0xDC00) + 0x10000"

definition escapeCodePoint :: "nat \<Rightarrow> jsstring" where
  "escapeCodePoint cp = concat (map escapeOctet (utf8Encode cp))"

definition andThen :: "jsstring \<Rightarrow> error + jsstring \<Rightarrow> error + jsstring" where
  "andThen r k = (case k of Inl e \<Rightarrow> Inl e | Inr t \<Rightarrow> Inr (r @ t))"

text \<open>
  \<open>encodeURIComponent\<close>: unescaped code units pass through, every other code point is
  written as the escapes of its UTF-8 octets, and an unpaired surrogate throws URIError.
\<close>

fun encodeURIComponent :: "jsstring \<Rightarrow> error + jsstring" where
  "encodeURIComponent [] = Inr []"
| "encodeURIComponent [c] =
     (if uriUnescaped c then Inr [c]
      else if isLeadSurrogate c \<or> isTrailSurrogate c then Inl URIError
      else Inr (escapeCodePoint (unat c)))"
| "encodeURIComponent (c # d # s) =
     (if uriUnescaped c then andThen [c] (encodeURIComponent (d # s))
      else if isTrailSurrogate c then Inl URIError
      else if isLeadSurrogate c then
        (if isTrailSurrogate d
         then andThen (escapeCodePoint (surrogatePair c d)) (encodeURIComponent s)
         else Inl URIError)
      else andThen (escapeCodePoint (unat c)) (encodeURIComponent (d # s)))"

text \<open>
  A string is well formed when it has no unpaired surrogate (\<open>isWellFormed\<close> of
  JavaScript): these are the strings on which \<open>encodeURIComponent\<close> does not throw.
\<close>

fun isWellFormed :: "jsstring \<Rightarrow> bool" where
  "isWellFormed [] = True"
| "isWellFormed [c] = (\<not> isLeadSurrogate c \<and> \<not> isTrailSurrogate c)"
| "isWellFormed (c # d # s) =
     (if isLeadSurrogate c then isTrailSurrogate d \<and> isWellFormed s
      else \<not> isTrailSurrogate c \<and> isWellFormed (d # s))"

definition hexValue :: "code_unit \<Rightarrow> nat option" where
  "hexValue c =
     (if isDigit c then Some (unat c - 0x30)
      else if 0x41 \<le> c \<and> c \<le> 0x46 then Some (unat c - 0x41 + 10)
      else if 0x61 \<le> c \<and> c \<le> 0x66 then Some (unat c - 0x61 + 10)
      else None)"

definition parseHexOctet :: "code_unit \<Rightarrow> code_unit \<Rightarrow> nat option" where
  "parseHexOctet h l =
     (case (hexValue h, hexValue l) of
        (Some a, Some b) \<Rightarrow> Some (16 * a + b)
      | _ \<Rightarrow> None)"

text \<open>The number of leading 1 bits of an octet.\<close>

definition leadingOnes :: "nat \<Rightarrow> nat" where
  "leadingOnes b =
     (if b < 0x80 then 0 else if b < 0xC0 then 1 else if b < 0xE0 then 2
      else if b < 0xF0 then 3 else if b < 0xF8 then 4 else 5)"

text \<open>\<open>continuation j s\<close> reads \<open>j\<close> further escapes \<open>%XX\<close> from the front of \<open>s\<close>.\<close>

fun continuation :: "nat \<Rightarrow> jsstring \<Rightarrow> nat list option" where
  "continuation 0 s = Some []"
| "continuation (Suc j) (p # h # l # s) =
     (if p = 0x25 then
        (case parseHexOctet h l of
           None \<Rightarrow> None
         | Some b \<Rightarrow> map_option ((#) b) (continuation j s))
      else None)"
| "continuation (Suc j) s = None"

text \<open>
  The code point of a multi-octet UTF-8 sequence, or \<open>None\<close> when the octets are not
  the valid encoding of a code point (bad continuation octet, overlong form, surrogate,
  beyond U+10FFFF).
\<close>

definition isContinuationOctet :: "nat \<Rightarrow> bool" where
  "isContinuationOctet b \<longleftrightarrow> 0x80 \<le> b \<and> b < 0xC0"

definition utf8Decode :: "nat list \<Rightarrow> nat option" where
  "utf8Decode octets =
     (case octets of
        [a, b] \<Rightarrow>
          (let v = (a - 0xC0) * 64 + (b - 0x80)
           in if isContinuationOctet b \<and> 0x80 \<le> v then Some v else None)
      | [a, b, c] \<Rightarrow>
          (let v = (a - 0xE0) * 4096 + (b - 0x80) * 64 + (c - 0x80)
           in if isContinuationOctet b \<and> isContinuationOctet c \<and> 0x800 \<le> v \<and>
                 \<not> (0xD800 \<le> v \<and> v \<le> 0xDFFF)
              then Some v else None)
      | [a, b, c, d] \<Rightarrow>
          (let v = (a - 0xF0) * 262144 + (b - 0x80) * 4096 + (c - 0x80) * 64 + (d - 0x80)
           in if isContinuationOctet b \<and> isContinuationOctet c \<and> isContinuationOctet d \<and>
                 0x10000 \<le> v \<and> v \<le> 0x10FFFF
              then Some v else None)
      | _ \<Rightarrow> None)"

definition utf16Encode :: "nat \<Rightarrow> jsstring" where
  "utf16Encode v =
     (if v \<le> 0xFFFF then [of_nat v]
      else [of_nat ((v - 0x10000) div 0x400 + 0xD800),
            of_nat ((v - 0x10000) mod 0x400 + 0xDC00)])"

text \<open>
  \<open>decodeURIComponent\<close>: a code unit other than \<open>%\<close> is copied; \<open>%\<close> must be followed
  by two hex digits, and an octet with leading 1 bits must start a valid UTF-8 sequence
  of escapes.  Everything else throws URIError.
\<close>

fun decodeURIComponent :: "jsstring \<Rightarrow> error + jsstring" where
  "decodeURIComponent [] = Inr []"
| "decodeURIComponent (c # s) =
     (if c \<noteq> 0x25 then andThen [c] (decodeURIComponent s)
      else
        (case s of
           h # l # r \<Rightarrow>
             (case parseHexOctet h l of
                None \<Rightarrow> Inl URIError
              | Some b \<Rightarrow>
                  (let n = leadingOnes b
                   in if n = 0 then andThen [of_nat b] (decodeURIComponent r)
                      else if n = 1 \<or> n > 4 then Inl URIError
                      else
                        (case continuation (n - 1) r of
                           None \<Rightarrow> Inl URIError
                         | Some octets \<Rightarrow>
                             (case utf8Decode (b # octets) of
                                None \<Rightarrow> Inl URIError
                              | Some v \<Rightarrow>
                                  andThen (utf16Encode v)
                                    (decodeURIComponent (drop (3 * (n - 1)) r))))))
         | _ \<Rightarrow> Inl URIError))"

section \<open>The QR codec (src/utils/qr.ts)\<close>

definition QR_PREFIX :: jsstring where
  "QR_PREFIX = js ''temp-monitor://chiller/''"

definition buildChillerQrValue :: "jsstring \<Rightarrow> error + jsstring" where
  "buildChillerQrValue chillerId = andThen QR_PREFIX (encodeURIComponent chillerId)"

text \<open>The regular expression \<open>/^[a-zA-Z0-9_-]{10,}$/\<close>.\<close>

definition isTokenChar :: "code_unit \<Rightarrow> bool" where
  "isTokenChar c \<longleftrightarrow> isLower c \<or> isUpper c \<or> isDigit c \<or> c = 0x5F \<or> c = 0x2D"

definition rawIdPattern :: "jsstring \<Rightarrow> bool" where
  "rawIdPattern s \<longleftrightarrow> 10 \<le> length s \<and> list_all isTokenChar s"

text \<open>
  \<open>parseChillerIdFromQr\<close> returns a string or null (\<open>None\<close>); the URIError of
  \<open>decodeURIComponent\<close> is not caught and leaves the function as \<open>Inl URIError\<close>.
  The parameter is typed \<open>string\<close>, on which \<open>String(value || "")\<close> and \<open>id || ""\<close>
  are the identity.
\<close>

definition parseChillerIdFromQr :: "jsstring \<Rightarrow> error + jsstring option" where
  "parseChillerIdFromQr v =
     (let s = trim v in
      if startsWith s QR_PREFIX then
        (let ident = drop (length QR_PREFIX) s in
         case decodeURIComponent ident of
           Inl e \<Rightarrow> Inl e
         | Inr d \<Rightarrow> (let r = trim d in if r = [] then Inr None else Inr (Some r)))
      else if rawIdPattern s then Inr (Some s)
      else Inr None)"

section \<open>The keypad normaliser (src/components/TempKeypad.tsx)\<close>

datatype Mode = SignedDecimal | UnsignedDecimal

text \<open>\<open>s.replace(/a/g, b)\<close> for single code units \<open>a\<close> and \<open>b\<close>.\<close>

definition replaceAll :: "code_unit \<Rightarrow> code_unit \<Rightarrow> jsstring \<Rightarrow> jsstring" where
  "replaceAll a b s = map (\<lambda>c. if c = a then b else c) s"

text \<open>
  \<open>s.split(sep)\<close> for a separator of one code unit: the segments between the
  separators, so that the empty string gives one empty segment.
\<close>

function split :: "code_unit \<Rightarrow> jsstring \<Rightarrow> jsstring list" where
  "split sep s =
     takeWhile (\<lambda>c. c \<noteq> sep) s #
       (case dropWhile (\<lambda>c. c \<noteq> sep) s of
          [] \<Rightarrow> []
        | _ # r \<Rightarrow> split sep r)"
  by pat_completeness auto
termination
proof (relation "measure (\<lambda>(sep, s). length s)")
  fix sep :: code_unit and s :: jsstring and x r
  assume "dropWhile (\<lambda>c. c \<noteq> sep) s = x # r"
  then have "Suc (length r) = length (dropWhile (\<lambda>c. c \<noteq> sep) s)"
    by simp
  also have "\<dots> \<le> length s"
    by (rule length_dropWhile_le)
  finally show "((sep, r), (sep, s)) \<in> measure (\<lambda>(sep, s). length s)"
    by simp
qed simp

definition normalizeInput :: "jsstring \<Rightarrow> Mode \<Rightarrow> jsstring" where
  "normalizeInput raw mode =
     (let s0 = replaceAll 0x2C 0x2E raw;
          s1 = filter (\<lambda>c. isDigit c \<or> c = 0x2D \<or> c = 0x2E) s0;
          allowMinus = (mode = SignedDecimal);
          startsMinus = startsWith s1 [0x2D];
          s2 = filter (\<lambda>c. c \<noteq> 0x2D) s1;
          s3 = (if allowMinus \<and> startsMinus then 0x2D # s2 else s2)
      in case split 0x2E s3 of
           [] \<Rightarrow> s3
         | p # ps \<Rightarrow> if 2 < length (p # ps) then p @ [0x2E] @ concat ps else s3)"

text \<open>
  What the handling of the dots amounts to (shown below): the text up to the first dot
  and, when there is a dot, that dot and the rest without its dots.
\<close>

definition keepFirstDot :: "jsstring \<Rightarrow> jsstring" where
  "keepFirstDot s =
     takeWhile (\<lambda>c. c \<noteq> 0x2E) s @
       (case dropWhile (\<lambda>c. c \<noteq> 0x2E) s of
          [] \<Rightarrow> []
        | _ # r \<Rightarrow> 0x2E # filter (\<lambda>c. c \<noteq> 0x2E) r)"

text \<open>
  The grammar \<open>-?[0-9]*(\.[0-9]*)?\<close> of the buffer, as a check on a whole string; the
  leading minus is accepted only when \<open>allowMinus\<close> holds.
\<close>

definition matchesDecimalGrammar :: "bool \<Rightarrow> jsstring \<Rightarrow> bool" where
  "matchesDecimalGrammar allowMinus s \<longleftrightarrow>
     (let body = (if allowMinus \<and> startsWith s [0x2D] then drop 1 s else s)
      in case dropWhile isDigit body of
           [] \<Rightarrow> True
         | c # ds \<Rightarrow> c = 0x2E \<and> list_all isDigit ds)"

section \<open>Numbers\<close>

text \<open>
  A JavaScript number is NaN, an infinity or a finite binary64 value, kept here as the
  rational it denotes; the sign of zero, which neither \<open><\<close> nor \<open>Number.isFinite\<close>
  observes, is not kept.
\<close>

datatype jsnumber = NaN | PosInfinity | NegInfinity | Finite rat

definition isFinite :: "jsnumber \<Rightarrow> bool" where
  "isFinite n = (case n of Finite _ \<Rightarrow> True | _ \<Rightarrow> False)"

text \<open>The relational comparison \<open>a < b\<close>; \<open>a > b\<close> is \<open>jsLess b a\<close>.\<close>

fun jsLess :: "jsnumber \<Rightarrow> jsnumber \<Rightarrow> bool" where
  "jsLess NaN _ = False"
| "jsLess _ NaN = False"
| "jsLess (Finite a) (Finite b) = (a < b)"
| "jsLess _ NegInfinity = False"
| "jsLess PosInfinity _ = False"
| "jsLess NegInfinity _ = True"
| "jsLess _ PosInfinity = True"

fun negate :: "jsnumber \<Rightarrow> jsnumber" where
  "negate NaN = NaN"
| "negate PosInfinity = NegInfinity"
| "negate NegInfinity = PosInfinity"
| "negate (Finite x) = Finite (- x)"

subsection \<open>Rounding to binary64\<close>

function intLog2 :: "int \<Rightarrow> int" where
  "intLog2 n = (if n < 2 then 0 else 1 + intLog2 (n div 2))"
  by pat_completeness auto
termination
  by (relation "measure nat") auto

definition pow2 :: "int \<Rightarrow> rat" where
  "pow2 e = (if 0 \<le> e then 2 ^ nat e else 1 / 2 ^ nat (- e))"

text \<open>The integer part of the binary logarithm of a positive rational.\<close>

definition floorLog2 :: "rat \<Rightarrow> int" where
  "floorLog2 x =
     (let (p, q) = quotient_of x;
          k = intLog2 p - intLog2 q
      in if pow2 k \<le> x then k else k - 1)"

definition roundHalfEven :: "rat \<Rightarrow> int" where
  "roundHalfEven x =
     (let f = \<lfloor>x\<rfloor>; d = x - of_int f
      in if d < 1 / 2 then f else if 1 / 2 < d then f + 1
         else if even f then f else f + 1)"

text \<open>
  The number value for a mathematical value: the nearest binary64 value (53 bits of
  significand, exponents of the last place from -1074), ties to even, and an infinity
  from \<open>2 ^ 1024\<close> on.
\<close>

definition roundPositive :: "rat \<Rightarrow> jsnumber" where
  "roundPositive x =
     (let e = max (floorLog2 x - 52) (- 1074);
          v = of_int (roundHalfEven (x / pow2 e)) * pow2 e
      in if pow2 1024 \<le> v then PosInfinity else Finite v)"

definition toNumber :: "rat \<Rightarrow> jsnumber" where
  "toNumber x =
     (if x = 0 then Finite 0
      else if x < 0 then negate (roundPositive (- x))
      else roundPositive x)"

subsection \<open>\<open>Number(string)\<close>\<close>

definition digitValue :: "code_unit \<Rightarrow> int option" where
  "digitValue c =
     (if isDigit c then Some (uint c - 0x30)
      else if isLower c then Some (uint c - 0x61 + 10)
      else if isUpper c then Some (uint c - 0x41 + 10)
      else None)"

text \<open>The value of a non-empty run of digits of a radix, \<open>None\<close> for anything else.\<close>

definition isRadixDigit :: "int \<Rightarrow> code_unit \<Rightarrow> bool" where
  "isRadixDigit radix c = (case digitValue c of None \<Rightarrow> False | Some d \<Rightarrow> d < radix)"

definition digitsValue :: "int \<Rightarrow> jsstring \<Rightarrow> int" where
  "digitsValue radix ds = foldl (\<lambda>a c. radix * a + (case digitValue c of None \<Rightarrow> 0 | Some d \<Rightarrow> d)) 0 ds"

definition radixDigits :: "int \<Rightarrow> jsstring \<Rightarrow> int option" where
  "radixDigits radix ds =
     (if ds \<noteq> [] \<and> list_all (isRadixDigit radix) ds then Some (digitsValue radix ds)
      else None)"

text \<open>\<open>NonDecimalIntegerLiteral\<close>: \<open>0b\<close>, \<open>0o\<close> or \<open>0x\<close> (either case) and digits.\<close>

definition nonDecimalIntegerLiteral :: "jsstring \<Rightarrow> int option" where
  "nonDecimalIntegerLiteral s =
     (case s of
        z # k # ds \<Rightarrow>
          (if z \<noteq> 0x30 then None
           else if k = 0x62 \<or> k = 0x42 then radixDigits 2 ds
           else if k = 0x6F \<or> k = 0x4F then radixDigits 8 ds
           else if k = 0x78 \<or> k = 0x58 then radixDigits 16 ds
           else None)
      | _ \<Rightarrow> None)"

text \<open>\<open>ExponentPart\<close>, optional: \<open>e\<close> or \<open>E\<close>, an optional sign and decimal digits.\<close>

definition exponentPart :: "jsstring \<Rightarrow> int option" where
  "exponentPart s =
     (case s of
        [] \<Rightarrow> Some 0
      | c # r \<Rightarrow>
          (if c = 0x65 \<or> c = 0x45 then
             (case r of
                [] \<Rightarrow> None
              | g # ds \<Rightarrow>
                  (if g = 0x2B then radixDigits 10 ds
                   else if g = 0x2D then map_option uminus (radixDigits 10 ds)
                   else radixDigits 10 r))
           else None))"

definition pow10 :: "int \<Rightarrow> rat" where
  "pow10 e = (if 0 \<le> e then 10 ^ nat e else 1 / 10 ^ nat (- e))"

text \<open>
  \<open>StrUnsignedDecimalLiteral\<close>: \<open>Infinity\<close>, or digits with an optional fraction and
  exponent, at least one digit before the exponent.
\<close>

definition strUnsignedDecimalLiteral :: "jsstring \<Rightarrow> jsnumber option" where
  "strUnsignedDecimalLiteral s =
     (if s = js ''Infinity'' then Some PosInfinity
      else
        (let ip = takeWhile isDigit s; r = dropWhile isDigit s;
             dot = startsWith r [0x2E];
             fp = (if dot then takeWhile isDigit (drop 1 r) else []);
             ex = (if dot then dropWhile isDigit (drop 1 r) else r)
         in if ip = [] \<and> fp = [] then None
            else
              (case exponentPart ex of
                 None \<Rightarrow> None
               | Some e \<Rightarrow>
                   Some (toNumber
                     ((of_int (digitsValue 10 ip) +
                       of_int (digitsValue 10 fp) / 10 ^ length fp) * pow10 e)))))"

definition strDecimalLiteral :: "jsstring \<Rightarrow> jsnumber option" where
  "strDecimalLiteral s =
     (case s of
        [] \<Rightarrow> None
      | c # r \<Rightarrow>
          (if c = 0x2B then strUnsignedDecimalLiteral r
           else if c = 0x2D then map_option negate (strUnsignedDecimalLiteral r)
           else strUnsignedDecimalLiteral s))"

text \<open>
  \<open>Number(s)\<close> on a string: white space around the literal is dropped, the empty
  literal is 0, and what is no \<open>StringNumericLiteral\<close> is NaN.
\<close>

definition Number :: "jsstring \<Rightarrow> jsnumber" where
  "Number s =
     (let t = trim s
      in if t = [] then Finite 0
         else
           (case nonDecimalIntegerLiteral t of
              Some n \<Rightarrow> toNumber (of_int n)
            | None \<Rightarrow> (case strDecimalLiteral t of Some x \<Rightarrow> x | None \<Rightarrow> NaN)))"

section \<open>The add-log screen\<close>

text \<open>\<open>t.replace(",", ".")\<close>: a string pattern replaces its first occurrence only.\<close>

fun replaceFirst :: "code_unit \<Rightarrow> code_unit \<Rightarrow> jsstring \<Rightarrow> jsstring" where
  "replaceFirst a b [] = []"
| "replaceFirst a b (c # s) = (if c = a then b # s else c # replaceFirst a b s)"

text \<open>The result of \<open>parseNumber\<close>: \<open>null\<close>, the string \<open>"nan"\<close> or a number.\<close>

datatype parsed = Null | NanMarker | Value jsnumber

definition parseNumber :: "jsstring \<Rightarrow> parsed" where
  "parseNumber val =
     (let t = trim val
      in if t = [] then Null
         else if t = js ''-'' \<or> t = js ''.'' \<or> t = js ''-.'' then NanMarker
         else
           (let normalized = replaceFirst 0x2C 0x2E t; n = Number normalized
            in if \<not> isFinite n then NanMarker else Value n))"

datatype Status = Ok | Warning | Damaged

record Chiller =
  ident :: jsstring
  ownerId :: jsstring
  name :: jsstring
  branchId :: jsstring
  minTemp :: "jsnumber option"
  maxTemp :: "jsnumber option"

text \<open>
  The effect "Auto-warning based on range (unless damaged)" of the screen, run whenever
  the temperature text or the chiller changes.  It reads the chiller (null until
  loaded), the temperature text and the status, and may set the status: the function
  returns the status after the effect.
\<close>

definition autoWarningEffect :: "Chiller option \<Rightarrow> jsstring \<Rightarrow> Status \<Rightarrow> Status" where
  "autoWarningEffect chiller tempC status =
     (case chiller of
        None \<Rightarrow> status
      | Some ch \<Rightarrow>
          (case parseNumber tempC of
             Null \<Rightarrow> status
           | NanMarker \<Rightarrow> status
           | Value t \<Rightarrow>
               if status = Damaged then status
               else
                 (let mn = minTemp ch; mx = maxTemp ch
                  in if mn = None \<and> mx = None then Ok
                     else
                       (let isLow = (case mn of None \<Rightarrow> False | Some m \<Rightarrow> jsLess t m);
                            isHigh = (case mx of None \<Rightarrow> False | Some m \<Rightarrow> jsLess m t)
                        in if isLow \<or> isHigh then Warning else Ok))))"

section \<open>The QR codec: decoding\<close>

text \<open>
  C1. The claim is that \<open>parseChillerIdFromQr\<close> returns an identifier or none on every
  input and never throws, in particular on a prefixed payload with a malformed percent
  escape.  The function does not catch the URIError of \<open>decodeURIComponent\<close>: on the
  prefix followed by a lone \<open>%\<close> it throws.
\<close>

theorem parseChillerIdFromQr_throws_on_malformed_escape:
  "parseChillerIdFromQr (js ''temp-monitor://chiller/%'') = Inl URIError"
  by code_simp

lemma parse_prefix_abc:
  "parseChillerIdFromQr (QR_PREFIX @ js ''abc'') = Inr (Some (js ''abc''))"
  by code_simp

lemma parse_abc: "parseChillerIdFromQr (js ''abc'') = Inr None"
  by code_simp

text \<open>
  What the function does when the trimmed payload starts with the scheme prefix: the
  prefix is stripped and the remainder percent-decoded; a decoded text is trimmed again
  and returned when it is not empty, none when it is.
\<close>

lemma parseChillerIdFromQr_prefix_path:
  assumes "startsWith (trim v) QR_PREFIX"
  shows "parseChillerIdFromQr v =
        (case decodeURIComponent (drop (length QR_PREFIX) (trim v)) of
           Inl e \<Rightarrow> Inl e
         | Inr d \<Rightarrow> Inr (if trim d = [] then None else Some (trim d)))"
  using assms by (simp add: parseChillerIdFromQr_def split: sum.split)

lemma parseChillerIdFromQr_prefix_decoded:
  assumes "startsWith (trim v) QR_PREFIX"
    and "decodeURIComponent (drop (length QR_PREFIX) (trim v)) = Inr d"
  shows "parseChillerIdFromQr v = Inr (if trim d = [] then None else Some (trim d))"
  using assms by (simp add: parseChillerIdFromQr_prefix_path)

text \<open>
  C8. The claim is that for every payload whose trimmed text starts with the scheme
  prefix the function returns the trimmed percent-decoding of the remainder, or none
  when that is empty, with no minimum length (the prefix followed by \<open>abc\<close> gives
  \<open>abc\<close>, which alone is rejected: \<open>parse_prefix_abc\<close>, \<open>parse_abc\<close>).  The
  function does so whenever the remainder decodes, but the URIError of
  \<open>decodeURIComponent\<close> is not caught: a payload that starts with the prefix and
  goes on with a truncated escape gives neither an identifier nor none.
\<close>

theorem parseChillerIdFromQr_deep_link_throws:
  "startsWith (trim (js '' temp-monitor://chiller/unit-7%2 '')) QR_PREFIX \<and>
   parseChillerIdFromQr (js '' temp-monitor://chiller/unit-7%2 '') = Inl URIError \<and>
   parseChillerIdFromQr (js '' temp-monitor://chiller/unit-7%2 '') \<noteq> Inr None \<and>
   (\<nexists>r. parseChillerIdFromQr (js '' temp-monitor://chiller/unit-7%2 '') = Inr (Some r))"
proof -
  have s: "startsWith (trim (js '' temp-monitor://chiller/unit-7%2 '')) QR_PREFIX"
    by code_simp
  have e: "parseChillerIdFromQr (js '' temp-monitor://chiller/unit-7%2 '') = Inl URIError"
    by code_simp
  from s show ?thesis unfolding e by simp
qed

lemma parse_abcdefghij:
  "parseChillerIdFromQr (js ''abcdefghij'') = Inr (Some (js ''abcdefghij''))"
  by code_simp

lemma parse_short: "parseChillerIdFromQr (js ''short'') = Inr None"
  by code_simp

text \<open>
  C9. When the trimmed payload does not start with the scheme prefix, the result is the
  trimmed payload exactly when it has at least 10 code units, each a letter, a digit,
  an underscore or a hyphen, and none otherwise; \<open>abcdefghij\<close> is accepted and
  \<open>short\<close> is not.
\<close>

theorem parseChillerIdFromQr_raw_fallback:
  "(\<not> startsWith (trim v) QR_PREFIX \<longrightarrow>
      parseChillerIdFromQr v =
        (if 10 \<le> length (trim v) \<and>
            (\<forall>c \<in> set (trim v).
                (0x61 \<le> c \<and> c \<le> 0x7A) \<or> (0x41 \<le> c \<and> c \<le> 0x5A) \<or>
                (0x30 \<le> c \<and> c \<le> 0x39) \<or> c = 0x5F \<or> c = 0x2D)
         then Inr (Some (trim v)) else Inr None)) \<and>
   parseChillerIdFromQr (js ''abcdefghij'') = Inr (Some (js ''abcdefghij'')) \<and>
   parseChillerIdFromQr (js ''short'') = Inr None"
proof (intro conjI impI)
  assume "\<not> startsWith (trim v) QR_PREFIX"
  then show "parseChillerIdFromQr v =
        (if 10 \<le> length (trim v) \<and>
            (\<forall>c \<in> set (trim v).
                (0x61 \<le> c \<and> c \<le> 0x7A) \<or> (0x41 \<le> c \<and> c \<le> 0x5A) \<or>
                (0x30 \<le> c \<and> c \<le> 0x39) \<or> c = 0x5F \<or> c = 0x2D)
         then Inr (Some (trim v)) else Inr None)"
    by (auto simp: parseChillerIdFromQr_def rawIdPattern_def isTokenChar_def isLower_def
        isUpper_def isDigit_def list_all_iff Let_def)
qed (rule parse_abcdefghij parse_short)+

theorem parseChillerIdFromQr_raw_fallback_witness:
  "\<not> startsWith (trim (js '' chiller_0001-A '')) QR_PREFIX \<and>
   parseChillerIdFromQr (js '' chiller_0001-A '') = Inr (Some (js ''chiller_0001-A''))"
proof -
  have h: "\<not> startsWith (trim (js '' chiller_0001-A '')) QR_PREFIX"
    by code_simp
  have t: "trim (js '' chiller_0001-A '') = js ''chiller_0001-A''"
    by code_simp
  from parseChillerIdFromQr_raw_fallback [of "js '' chiller_0001-A ''"] h
  have "parseChillerIdFromQr (js '' chiller_0001-A '') =
        (if 10 \<le> length (trim (js '' chiller_0001-A '')) \<and>
            (\<forall>c \<in> set (trim (js '' chiller_0001-A '')).
                (0x61 \<le> c \<and> c \<le> 0x7A) \<or> (0x41 \<le> c \<and> c \<le> 0x5A) \<or>
                (0x30 \<le> c \<and> c \<le> 0x39) \<or> c = 0x5F \<or> c = 0x2D)
         then Inr (Some (trim (js '' chiller_0001-A ''))) else Inr None)"
    by blast
  then show ?thesis using h unfolding t by (simp add: js_def)
qed

section \<open>Threshold classification\<close>

text \<open>
  C3. The status after the effect is \<open>damaged\<close> if and only if it was \<open>damaged\<close>
  before: a damaged status is left alone whatever the temperature and range, and from
  another status the effect never produces \<open>damaged\<close>.
\<close>

theorem autoWarningEffect_damaged_iff:
  "autoWarningEffect chiller tempC status = Damaged \<longleftrightarrow> status = Damaged"
  by (simp add: autoWarningEffect_def Let_def split: option.split parsed.split)

theorem autoWarningEffect_damaged_iff_witness:
  "autoWarningEffect
     (Some \<lparr>ident = js ''c1'', ownerId = js ''u1'', name = js ''Freezer'', branchId = js ''b1'',
           minTemp = Some (Finite 2), maxTemp = Some (Finite 8)\<rparr>) (js ''10'') Damaged = Damaged \<and>
   autoWarningEffect
     (Some \<lparr>ident = js ''c1'', ownerId = js ''u1'', name = js ''Freezer'', branchId = js ''b1'',
           minTemp = Some (Finite 2), maxTemp = Some (Finite 8)\<rparr>) (js ''10'') Ok \<noteq> Damaged"
  using autoWarningEffect_damaged_iff
  by simp

lemma parseNumber_10: "parseNumber (js ''10'') = Value (Finite 10)"
  by code_simp

lemma parseNumber_5: "parseNumber (js ''5'') = Value (Finite 5)"
  by code_simp

lemma parseNumber_1: "parseNumber (js ''1'') = Value (Finite 1)"
  by code_simp

lemma parseNumber_2: "parseNumber (js ''2'') = Value (Finite 2)"
  by code_simp

lemma parseNumber_8: "parseNumber (js ''8'') = Value (Finite 8)"
  by code_simp

lemma autoWarningEffect_parsed:
  assumes "parseNumber tempC = Value t" and "status \<noteq> Damaged"
  shows "autoWarningEffect (Some ch) tempC status =
        (if minTemp ch = None \<and> maxTemp ch = None then Ok
         else if (\<exists>m. minTemp ch = Some m \<and> jsLess t m) \<or>
                 (\<exists>m. maxTemp ch = Some m \<and> jsLess m t) then Warning
         else Ok)"
  using assms by (auto simp: autoWarningEffect_def Let_def split: option.split)

text \<open>
  C4. With a chiller loaded, a temperature text that parses to \<open>t\<close> and a status other
  than \<open>damaged\<close>, the status becomes \<open>ok\<close> when both bounds are absent, and
  otherwise \<open>warning\<close> exactly when the lower bound is present and \<open>t\<close> is below it or
  the upper bound is present and \<open>t\<close> is above it, \<open>ok\<close> if not.  For the range 2 to
  8: 10 and 1 give \<open>warning\<close>, 5 gives \<open>ok\<close>, and the bounds 2 and 8 themselves give
  \<open>ok\<close>.
\<close>

theorem autoWarningEffect_range:
  "(parseNumber tempC = Value t \<and> status \<noteq> Damaged \<longrightarrow>
      autoWarningEffect (Some ch) tempC status =
        (if minTemp ch = None \<and> maxTemp ch = None then Ok
         else if (\<exists>m. minTemp ch = Some m \<and> jsLess t m) \<or>
                 (\<exists>m. maxTemp ch = Some m \<and> jsLess m t) then Warning
         else Ok)) \<and>
   autoWarningEffect (Some (ch\<lparr>minTemp := Some (Finite 2), maxTemp := Some (Finite 8)\<rparr>))
     (js ''10'') Ok = Warning \<and>
   autoWarningEffect (Some (ch\<lparr>minTemp := Some (Finite 2), maxTemp := Some (Finite 8)\<rparr>))
     (js ''5'') Ok = Ok \<and>
   autoWarningEffect (Some (ch\<lparr>minTemp := Some (Finite 2), maxTemp := Some (Finite 8)\<rparr>))
     (js ''1'') Ok = Warning \<and>
   autoWarningEffect (Some (ch\<lparr>minTemp := Some (Finite 2), maxTemp := Some (Finite 8)\<rparr>))
     (js ''2'') Ok = Ok \<and>
   autoWarningEffect (Some (ch\<lparr>minTemp := Some (Finite 2), maxTemp := Some (Finite 8)\<rparr>))
     (js ''8'') Ok = Ok"
  by (simp add: autoWarningEffect_parsed parseNumber_10 parseNumber_5 parseNumber_1
      parseNumber_2 parseNumber_8)

theorem autoWarningEffect_range_witness:
  "parseNumber (js ''10'') = Value (Finite 10) \<and> Warning \<noteq> Damaged \<and>
   autoWarningEffect
     (Some \<lparr>ident = js ''c1'', ownerId = js ''u1'', name = js ''Freezer'', branchId = js ''b1'',
           minTemp = None, maxTemp = Some (Finite 8)\<rparr>) (js ''10'') Warning = Warning \<and>
   autoWarningEffect
     (Some \<lparr>ident = js ''c1'', ownerId = js ''u1'', name = js ''Freezer'', branchId = js ''b1'',
           minTemp = None, maxTemp = None\<rparr>) (js ''10'') Warning = Ok"
proof -
  have p: "parseNumber (js ''10'') = Value (Finite 10)"
    by code_simp
  show ?thesis
    using p
      autoWarningEffect_range [of "js ''10''" "Finite 10" Warning
        "\<lparr>ident = js ''c1'', ownerId = js ''u1'', name = js ''Freezer'', branchId = js ''b1'',
           minTemp = None, maxTemp = Some (Finite 8)\<rparr>"]
      autoWarningEffect_range [of "js ''10''" "Finite 10" Warning
        "\<lparr>ident = js ''c1'', ownerId = js ''u1'', name = js ''Freezer'', branchId = js ''b1'',
           minTemp = None, maxTemp = None\<rparr>"]
    by simp
qed

section \<open>The numeric parser\<close>

subsection \<open>Trimming, and commas in \<open>Number\<close>\<close>

lemma trim_Nil_iff: "trim s = [] \<longleftrightarrow> list_all isWhiteSpace s"
proof
  assume "trim s = []"
  then have "dropWhile isWhiteSpace (rev (dropWhile isWhiteSpace s)) = []"
    by (simp add: trim_def trimEnd_def trimStart_def)
  then have a: "\<forall>c \<in> set (dropWhile isWhiteSpace s). isWhiteSpace c"
    by (simp add: dropWhile_eq_Nil_conv)
  have "dropWhile isWhiteSpace s = []"
  proof (cases "dropWhile isWhiteSpace s")
    case Nil then show ?thesis .
  next
    case (Cons x xs)
    then have "\<not> isWhiteSpace x" by (metis hd_dropWhile list.sel(1) list.distinct(1))
    with a Cons show ?thesis by simp
  qed
  then show "list_all isWhiteSpace s"
    by (simp add: dropWhile_eq_Nil_conv list_all_iff)
next
  assume "list_all isWhiteSpace s"
  then have d: "dropWhile isWhiteSpace s = []"
    by (induction s) simp_all
  show "trim s = []"
    unfolding trim_def trimEnd_def trimStart_def d by simp
qed

lemma trim_sandwich:
  assumes a: "list_all isWhiteSpace a" and b: "list_all isWhiteSpace b"
    and t: "t \<noteq> []" "\<not> isWhiteSpace (hd t)" "\<not> isWhiteSpace (last t)"
  shows "trim (a @ t @ b) = t"
proof -
  from t obtain x xs where x: "t = x # xs" "\<not> isWhiteSpace x"
    by (cases t) auto
  from t obtain y ys where y: "t = ys @ [y]" "\<not> isWhiteSpace y"
    by (cases t rule: rev_cases) auto
  have "trimStart (a @ t @ b) = t @ b"
    using a x by (simp add: trimStart_def list_all_iff dropWhile_append2)
  moreover have "trimEnd (t @ b) = t"
  proof -
    from b have "dropWhile isWhiteSpace (rev b @ rev t) = dropWhile isWhiteSpace (rev t)"
      by (intro dropWhile_append2) (simp add: list_all_iff)
    also from y have "\<dots> = rev t" by simp
    finally show ?thesis by (simp add: trimEnd_def)
  qed
  ultimately show ?thesis by (simp add: trim_def)
qed

lemma mem_dropWhile: "c \<in> set s \<Longrightarrow> \<not> P c \<Longrightarrow> c \<in> set (dropWhile P s)"
  by (induction s) auto

lemma mem_trim: "c \<in> set s \<Longrightarrow> \<not> isWhiteSpace c \<Longrightarrow> c \<in> set (trim s)"
  by (simp add: trim_def trimEnd_def trimStart_def mem_dropWhile)

lemma comma_not_ws: "\<not> isWhiteSpace 0x2C"
  by (simp add: isWhiteSpace_def)

lemma comma_not_digit: "digitValue 0x2C = None"
  by (simp add: digitValue_def isDigit_def isLower_def isUpper_def)

lemma radixDigits_no_comma: "radixDigits r ds = Some n \<Longrightarrow> 0x2C \<notin> set ds"
  by (auto simp: radixDigits_def list_all_iff isRadixDigit_def comma_not_digit split: if_splits)

lemma nonDecimal_no_comma: "nonDecimalIntegerLiteral s = Some n \<Longrightarrow> 0x2C \<notin> set s"
  by (auto simp: nonDecimalIntegerLiteral_def split: list.splits if_splits dest: radixDigits_no_comma)

lemma exponentPart_no_comma: "exponentPart s = Some e \<Longrightarrow> 0x2C \<notin> set s"
  by (auto simp: exponentPart_def split: list.splits if_splits dest: radixDigits_no_comma)

lemma takeWhile_digit_no_comma: "0x2C \<notin> set (takeWhile isDigit s)"
  by (auto dest!: set_takeWhileD simp: isDigit_def)

lemma split_digits_no_comma:
  "0x2C \<in> set s \<Longrightarrow> 0x2C \<in> set (dropWhile isDigit s)"
  by (rule mem_dropWhile) (simp_all add: isDigit_def)

lemma Infinity_no_comma: "0x2C \<notin> set (js ''Infinity'')"
  by (simp add: js_def)

lemma strUnsigned_no_comma:
  assumes "strUnsignedDecimalLiteral s = Some x"
  shows "0x2C \<notin> set s"
proof
  assume c: "0x2C \<in> set s"
  with Infinity_no_comma have ni: "s \<noteq> js ''Infinity''" by auto
  let ?r = "dropWhile isDigit s"
  let ?ex = "if startsWith ?r [0x2E] then dropWhile isDigit (drop 1 ?r) else ?r"
  from assms ni obtain e where e: "exponentPart ?ex = Some e"
    by (auto simp: strUnsignedDecimalLiteral_def Let_def split: if_splits option.splits)
  from c have r: "0x2C \<in> set ?r" by (rule split_digits_no_comma)
  have "0x2C \<in> set ?ex"
  proof (cases "startsWith ?r [0x2E]")
    case False
    with r show ?thesis by simp
  next
    case True
    then obtain r' where r': "?r = 0x2E # r'"
      by (cases ?r) (auto simp: startsWith_def)
    with r have "0x2C \<in> set r'" by auto
    then have "0x2C \<in> set (dropWhile isDigit r')" by (rule split_digits_no_comma)
    with True r' show ?thesis by simp
  qed
  with exponentPart_no_comma [OF e] show False by simp
qed

lemma strDecimal_no_comma: "strDecimalLiteral s = Some x \<Longrightarrow> 0x2C \<notin> set s"
  by (auto simp: strDecimalLiteral_def split: list.splits if_splits dest: strUnsigned_no_comma)

lemma Number_comma: 
  assumes "0x2C \<in> set s" shows "Number s = NaN"
proof -
  from assms have t: "0x2C \<in> set (trim s)"
    by (rule mem_trim) (rule comma_not_ws)
  then have "trim s \<noteq> []" by auto
  moreover from t have "nonDecimalIntegerLiteral (trim s) = None"
    using nonDecimal_no_comma by (cases "nonDecimalIntegerLiteral (trim s)") auto
  moreover from t have "strDecimalLiteral (trim s) = None"
    using strDecimal_no_comma by (cases "strDecimalLiteral (trim s)") auto
  ultimately show ?thesis by (simp add: Number_def)
qed

subsection \<open>The three outcomes\<close>

lemma count_dropWhile: "\<not> P a \<Longrightarrow> count_list (dropWhile P s) a = count_list s a"
  by (induction s) auto

lemma count_trim: "\<not> isWhiteSpace a \<Longrightarrow> count_list (trim s) a = count_list s a"
  by (simp add: trim_def trimEnd_def trimStart_def count_dropWhile)

lemma count_replaceFirst:
  "a \<noteq> b \<Longrightarrow> count_list (replaceFirst a b s) a = count_list s a - 1"
  by (induction s) auto

lemma parseNumber_empty: "parseNumber (js '''') = Null"
  by code_simp

lemma parseNumber_minus: "parseNumber (js ''-'') = NanMarker"
  by code_simp

lemma parseNumber_3comma5: "parseNumber (js ''3,5'') = Value (Finite (7 / 2))"
  by code_simp

lemma incomplete_ends:
  assumes "t = js ''-'' \<or> t = js ''.'' \<or> t = js ''-.''"
  shows "t \<noteq> [] \<and> \<not> isWhiteSpace (hd t) \<and> \<not> isWhiteSpace (last t)"
  using assms by (auto simp: js_def isWhiteSpace_def)

text \<open>
  C5. \<open>parseNumber\<close> has three outcomes.  An input of white space only (the empty
  input too) gives null.  The texts \<open>-\<close>, \<open>.\<close> and \<open>-.\<close>, with any white space
  around them, give the invalid marker.  For every other input the first comma of the
  trimmed text becomes a period and the text is converted with \<open>Number\<close>: a finite
  result is returned, NaN (unparseable) and the infinities give the invalid marker.
  \<open>3,5\<close> gives 3.5.
\<close>

theorem parseNumber_three_way:
  "(list_all isWhiteSpace s \<longrightarrow> parseNumber s = Null) \<and>
   (list_all isWhiteSpace a \<and> list_all isWhiteSpace b \<and>
    (t = js ''-'' \<or> t = js ''.'' \<or> t = js ''-.'') \<longrightarrow>
      parseNumber (a @ t @ b) = NanMarker) \<and>
   (\<not> list_all isWhiteSpace s \<and>
    trim s \<noteq> js ''-'' \<and> trim s \<noteq> js ''.'' \<and> trim s \<noteq> js ''-.'' \<longrightarrow>
      parseNumber s =
        (case Number (replaceFirst 0x2C 0x2E (trim s)) of
           Finite q \<Rightarrow> Value (Finite q)
         | _ \<Rightarrow> NanMarker)) \<and>
   parseNumber (js '''') = Null \<and>
   parseNumber (js ''-'') = NanMarker \<and>
   parseNumber (js ''3,5'') = Value (Finite (7 / 2))"
proof (intro conjI impI)
  assume "list_all isWhiteSpace s"
  then have "trim s = []" by (simp add: trim_Nil_iff)
  then show "parseNumber s = Null" by (simp add: parseNumber_def)
next
  assume h: "list_all isWhiteSpace a \<and> list_all isWhiteSpace b \<and>
    (t = js ''-'' \<or> t = js ''.'' \<or> t = js ''-.'')"
  then have "trim (a @ t @ b) = t"
    using incomplete_ends [of t] by (intro trim_sandwich) simp_all
  moreover from h have "t \<noteq> []" using incomplete_ends [of t] by simp
  ultimately show "parseNumber (a @ t @ b) = NanMarker"
    using h by (simp add: parseNumber_def)
next
  assume h: "\<not> list_all isWhiteSpace s \<and>
    trim s \<noteq> js ''-'' \<and> trim s \<noteq> js ''.'' \<and> trim s \<noteq> js ''-.''"
  then have "trim s \<noteq> []" by (simp add: trim_Nil_iff)
  with h show "parseNumber s =
        (case Number (replaceFirst 0x2C 0x2E (trim s)) of
           Finite q \<Rightarrow> Value (Finite q)
         | _ \<Rightarrow> NanMarker)"
    by (simp add: parseNumber_def Let_def isFinite_def split: jsnumber.split)
qed (rule parseNumber_empty parseNumber_minus parseNumber_3comma5)+

theorem parseNumber_three_way_witness:
  "list_all isWhiteSpace (js '' '') \<and> parseNumber (js '' '') = Null \<and>
   parseNumber (js '' '' @ js ''-.'' @ js '' '') = NanMarker \<and>
   \<not> list_all isWhiteSpace (js '' 2,5e1 '') \<and> 
   trim (js '' 2,5e1 '') \<noteq> js ''-'' \<and> trim (js '' 2,5e1 '') \<noteq> js ''.'' \<and>
   trim (js '' 2,5e1 '') \<noteq> js ''-.'' \<and>
   parseNumber (js '' 2,5e1 '') = Value (Finite 25)"
proof -
  have w: "list_all isWhiteSpace (js '' '')"
    by code_simp
  have n: "\<not> list_all isWhiteSpace (js '' 2,5e1 '') \<and> 
      trim (js '' 2,5e1 '') \<noteq> js ''-'' \<and> trim (js '' 2,5e1 '') \<noteq> js ''.'' \<and>
      trim (js '' 2,5e1 '') \<noteq> js ''-.''"
    by code_simp
  have v: "Number (replaceFirst 0x2C 0x2E (trim (js '' 2,5e1 ''))) = Finite 25"
    by code_simp
  from w parseNumber_three_way [of "js '' ''" "js '' ''" "js '' ''" "js ''-.''"]
  have 1: "parseNumber (js '' '') = Null" and 2: "parseNumber (js '' '' @ js ''-.'' @ js '' '') = NanMarker"
    by blast+
  from n parseNumber_three_way [of "js '' 2,5e1 ''" "[]" "[]" "[]"]
  have "parseNumber (js '' 2,5e1 '') =
        (case Number (replaceFirst 0x2C 0x2E (trim (js '' 2,5e1 ''))) of
           Finite q \<Rightarrow> Value (Finite q)
         | _ \<Rightarrow> NanMarker)"
    by blast
  then have 3: "parseNumber (js '' 2,5e1 '') = Value (Finite 25)"
    unfolding v by simp
  from w n 1 2 3 show ?thesis by blast
qed

lemma parseNumber_1comma2comma3: "parseNumber (js ''1,2,3'') = NanMarker"
  by code_simp

lemma normalizeInput_1comma2comma3: "normalizeInput (js ''1,2,3'') mode = js ''1.23''"
  by (cases mode; code_simp)

lemma parseNumber_two_commas:
  assumes "2 \<le> count_list s 0x2C"
  shows "parseNumber s = NanMarker"
proof -
  let ?t = "trim s"
  from assms have c: "2 \<le> count_list ?t 0x2C"
    by (simp add: count_trim comma_not_ws)
  then have "0x2C \<in> set ?t"
    by (metis count_notin not_numeral_le_zero)
  then have ne: "?t \<noteq> []" "?t \<noteq> js ''-''" "?t \<noteq> js ''.''" "?t \<noteq> js ''-.''"
    by (auto simp: js_def)
  from c have "1 \<le> count_list (replaceFirst 0x2C 0x2E ?t) 0x2C"
    by (simp add: count_replaceFirst)
  then have "0x2C \<in> set (replaceFirst 0x2C 0x2E ?t)"
    by (metis count_notin not_one_le_zero)
  then have "Number (replaceFirst 0x2C 0x2E ?t) = NaN"
    by (rule Number_comma)
  with ne show ?thesis
    by (simp add: parseNumber_def Let_def isFinite_def)
qed

text \<open>
  C10. \<open>parseNumber\<close> replaces the first comma only: every input with two or more
  commas gives the invalid marker, as \<open>1,2,3\<close> does, whereas the keypad normaliser
  replaces every comma and turns \<open>1,2,3\<close> into \<open>1.23\<close>.
\<close>

theorem parseNumber_first_comma_only:
  "(2 \<le> count_list s 0x2C \<longrightarrow> parseNumber s = NanMarker) \<and>
   parseNumber (js ''1,2,3'') = NanMarker \<and>
   normalizeInput (js ''1,2,3'') mode = js ''1.23''"
  by (simp add: parseNumber_two_commas parseNumber_1comma2comma3 normalizeInput_1comma2comma3)

theorem parseNumber_first_comma_only_witness:
  "2 \<le> count_list (js '' 12,5,0'') 0x2C \<and> parseNumber (js '' 12,5,0'') = NanMarker"
proof -
  have c: "2 \<le> count_list (js '' 12,5,0'') 0x2C"
    by code_simp
  with parseNumber_first_comma_only [of "js '' 12,5,0''"] show ?thesis
    by blast
qed

section \<open>The keypad normaliser: the shape of its result\<close>

subsection \<open>Splitting at the dots\<close>

declare split.simps [simp del]

lemma split_end:
  assumes "dropWhile (\<lambda>c. c \<noteq> sep) s = []"
  shows "split sep s = [s]"
proof -
  from assms have t: "takeWhile (\<lambda>c. c \<noteq> sep) s = s"
    by (simp add: dropWhile_eq_Nil_conv)
  have "split sep s = takeWhile (\<lambda>c. c \<noteq> sep) s #
       (case dropWhile (\<lambda>c. c \<noteq> sep) s of [] \<Rightarrow> [] | _ # r \<Rightarrow> split sep r)"
    by (rule split.simps)
  then show ?thesis unfolding assms t by simp
qed

lemma split_next:
  assumes "dropWhile (\<lambda>c. c \<noteq> sep) s = x # r"
  shows "split sep s = takeWhile (\<lambda>c. c \<noteq> sep) s # split sep r"
proof -
  have "split sep s = takeWhile (\<lambda>c. c \<noteq> sep) s #
       (case dropWhile (\<lambda>c. c \<noteq> sep) s of [] \<Rightarrow> [] | _ # r \<Rightarrow> split sep r)"
    by (rule split.simps)
  then show ?thesis unfolding assms by simp
qed

lemma dropWhile_sep:
  assumes "dropWhile (\<lambda>c. c \<noteq> sep) s = x # r"
  shows "x = sep" and "s = takeWhile (\<lambda>c. c \<noteq> sep) s @ sep # r"
proof -
  show x: "x = sep"
    using hd_dropWhile [of "\<lambda>c. c \<noteq> sep" s] assms by simp
  show "s = takeWhile (\<lambda>c. c \<noteq> sep) s @ sep # r"
    using takeWhile_dropWhile_id [of "\<lambda>c. c \<noteq> sep" s] unfolding assms x by simp
qed

lemma filter_takeWhile_sep:
  "filter (\<lambda>c. c \<noteq> sep) (takeWhile (\<lambda>c. c \<noteq> sep) s) = takeWhile (\<lambda>c. c \<noteq> sep) s"
  by (induction s) auto

lemma count_takeWhile_sep: "count_list (takeWhile (\<lambda>c. c \<noteq> sep) s) sep = 0"
  by (induction s) auto

lemma concat_split: "concat (split sep s) = filter (\<lambda>c. c \<noteq> sep) s"
proof (induction sep s rule: split.induct)
  case (1 sep s)
  show ?case
  proof (cases "dropWhile (\<lambda>c. c \<noteq> sep) s")
    case Nil
    then have "filter (\<lambda>c. c \<noteq> sep) s = s"
      by (simp add: dropWhile_eq_Nil_conv filter_id_conv)
    then show ?thesis by (simp add: split_end [OF Nil])
  next
    case (Cons x r)
    have "filter (\<lambda>c. c \<noteq> sep) s =
          filter (\<lambda>c. c \<noteq> sep) (takeWhile (\<lambda>c. c \<noteq> sep) s @ sep # r)"
      using dropWhile_sep(2) [OF Cons] by simp
    also have "\<dots> = takeWhile (\<lambda>c. c \<noteq> sep) s @ filter (\<lambda>c. c \<noteq> sep) r"
      by (simp add: filter_takeWhile_sep)
    finally show ?thesis
      using "1.IH" [OF Cons] by (simp add: split_next [OF Cons])
  qed
qed

lemma length_split: "length (split sep s) = Suc (count_list s sep)"
proof (induction sep s rule: split.induct)
  case (1 sep s)
  show ?case
  proof (cases "dropWhile (\<lambda>c. c \<noteq> sep) s")
    case Nil
    then have "sep \<notin> set s"
      by (auto simp: dropWhile_eq_Nil_conv)
    then show ?thesis by (simp add: split_end [OF Nil])
  next
    case (Cons x r)
    have "count_list s sep =
          count_list (takeWhile (\<lambda>c. c \<noteq> sep) s @ sep # r) sep"
      using dropWhile_sep(2) [OF Cons] by simp
    also have "\<dots> = Suc (count_list r sep)"
      by (simp add: count_takeWhile_sep)
    finally show ?thesis
      using "1.IH" [OF Cons] by (simp add: split_next [OF Cons])
  qed
qed

lemma dots_step:
  "(case split 0x2E s of
      [] \<Rightarrow> s
    | p # ps \<Rightarrow> if 2 < length (p # ps) then p @ [0x2E] @ concat ps else s) = keepFirstDot s"
proof (cases "dropWhile (\<lambda>c. c \<noteq> 0x2E) s")
  case Nil
  have t: "takeWhile (\<lambda>c. c \<noteq> 0x2E) s = s"
    using takeWhile_dropWhile_id [of "\<lambda>c. c \<noteq> 0x2E" s] unfolding Nil by simp
  show ?thesis
    unfolding keepFirstDot_def split_end [OF Nil] Nil t by simp
next
  case (Cons x r)
  note s = dropWhile_sep(2) [OF Cons]
  show ?thesis
  proof (cases "0x2E \<in> set r")
    case True
    then have "0 < count_list r 0x2E"
      using count_list_0_iff [of r "0x2E"] by auto
    then show ?thesis
      unfolding keepFirstDot_def split_next [OF Cons] Cons
      by (simp add: length_split concat_split)
  next
    case False
    then have "filter (\<lambda>c. c \<noteq> 0x2E) r = r"
      by (auto simp: filter_id_conv)
    with False s show ?thesis
      unfolding keepFirstDot_def split_next [OF Cons] Cons
      by (simp add: length_split)
  qed
qed

lemma normalizeInput_closed:
  "normalizeInput raw mode =
     (let s1 = filter (\<lambda>c. isDigit c \<or> c = 0x2D \<or> c = 0x2E) (replaceAll 0x2C 0x2E raw);
          s2 = filter (\<lambda>c. c \<noteq> 0x2D) s1
      in keepFirstDot (if mode = SignedDecimal \<and> startsWith s1 [0x2D] then 0x2D # s2 else s2))"
  unfolding normalizeInput_def Let_def dots_step ..

subsection \<open>Sign, digits and fraction\<close>

lemma keepFirstDot_minus: "keepFirstDot (0x2D # s) = 0x2D # keepFirstDot s"
  by (simp add: keepFirstDot_def)

lemma dot_not_digit: "\<not> isDigit 0x2E"
  by (simp add: isDigit_def)

lemma minus_not_digit: "\<not> isDigit 0x2D"
  by (simp add: isDigit_def)

lemma digit_neq: "isDigit c \<Longrightarrow> c \<noteq> 0x2D \<and> c \<noteq> 0x2E \<and> c \<noteq> 0x2C"
  by (auto simp: isDigit_def)

lemma no_minus_startsWith: "0x2D \<notin> set t \<Longrightarrow> \<not> startsWith t [0x2D]"
  by (cases t) (auto simp: startsWith_def)

lemma keepFirstDot_shape:
  assumes dd: "\<forall>c \<in> set s. isDigit c \<or> c = 0x2E"
  obtains ip fp where "keepFirstDot s = ip @ fp" and "list_all isDigit ip"
    and "fp = [] \<or> (\<exists>ds. fp = 0x2E # ds \<and> list_all isDigit ds)"
proof -
  let ?ip = "takeWhile (\<lambda>c. c \<noteq> 0x2E) s"
  let ?fp = "case dropWhile (\<lambda>c. c \<noteq> 0x2E) s of
          [] \<Rightarrow> [] | _ # r \<Rightarrow> 0x2E # filter (\<lambda>c. c \<noteq> 0x2E) r"
  have ip: "list_all isDigit ?ip"
    unfolding list_all_iff
  proof
    fix c assume c: "c \<in> set ?ip"
    then have "c \<in> set s" "c \<noteq> 0x2E"
      by (auto dest: set_takeWhileD)
    with dd show "isDigit c" by auto
  qed
  have fp: "?fp = [] \<or> (\<exists>ds. ?fp = 0x2E # ds \<and> list_all isDigit ds)"
  proof (cases "dropWhile (\<lambda>c. c \<noteq> 0x2E) s")
    case Nil
    then show ?thesis unfolding Nil by simp
  next
    case (Cons x r)
    have "set r \<subseteq> set s"
      using set_dropWhileD [of _ "\<lambda>c. c \<noteq> 0x2E" s] unfolding Cons by auto
    with dd have "list_all isDigit (filter (\<lambda>c. c \<noteq> 0x2E) r)"
      by (auto simp: list_all_iff)
    then show ?thesis unfolding Cons by simp
  qed
  from that [of ?ip ?fp] ip fp show thesis
    by (simp add: keepFirstDot_def)
qed

lemma normalizeInput_shape:
  obtains sign ip fp where "normalizeInput s mode = sign @ ip @ fp"
    and "sign = [] \<or> sign = [0x2D] \<and> mode = SignedDecimal"
    and "list_all isDigit ip"
    and "fp = [] \<or> (\<exists>ds. fp = 0x2E # ds \<and> list_all isDigit ds)"
proof -
  let ?s1 = "filter (\<lambda>c. isDigit c \<or> c = 0x2D \<or> c = 0x2E) (replaceAll 0x2C 0x2E s)"
  let ?s2 = "filter (\<lambda>c. c \<noteq> 0x2D) ?s1"
  let ?sign = "if mode = SignedDecimal \<and> startsWith ?s1 [0x2D] then [0x2D] else []"
  have "\<forall>c \<in> set ?s2. isDigit c \<or> c = 0x2E"
    by auto
  then obtain ip fp where k: "keepFirstDot ?s2 = ip @ fp" "list_all isDigit ip"
    "fp = [] \<or> (\<exists>ds. fp = 0x2E # ds \<and> list_all isDigit ds)"
    by (rule keepFirstDot_shape)
  have "normalizeInput s mode = ?sign @ keepFirstDot ?s2"
    by (simp add: normalizeInput_closed Let_def keepFirstDot_minus)
  with k have "normalizeInput s mode = ?sign @ ip @ fp"
    by simp
  moreover have "?sign = [] \<or> ?sign = [0x2D] \<and> mode = SignedDecimal"
    by simp
  ultimately show thesis
    using k(2,3) by (rule that)
qed

lemma shape_no_minus:
  assumes "list_all isDigit ip" and "fp = [] \<or> (\<exists>ds. fp = 0x2E # ds \<and> list_all isDigit ds)"
  shows "0x2D \<notin> set (ip @ fp)"
  using assms by (auto simp: list_all_iff dest: digit_neq)

lemma shape_dropWhile:
  assumes "list_all isDigit ip" and "fp = [] \<or> (\<exists>ds. fp = 0x2E # ds \<and> list_all isDigit ds)"
  shows "dropWhile isDigit (ip @ fp) = fp"
proof -
  from assms(1) have "dropWhile isDigit (ip @ fp) = dropWhile isDigit fp"
    by (intro dropWhile_append2) (simp add: list_all_iff)
  also from assms(2) have "\<dots> = fp"
    by (auto simp: dot_not_digit)
  finally show ?thesis .
qed

lemma startsWith_minus: "startsWith s [0x2D] \<longleftrightarrow> (\<exists>r. s = 0x2D # r)"
  by (cases s) (auto simp: startsWith_def)

lemma shape_matches:
  assumes "sign = [] \<or> sign = [0x2D] \<and> allowMinus"
    and ip: "list_all isDigit ip"
    and fp: "fp = [] \<or> (\<exists>ds. fp = 0x2E # ds \<and> list_all isDigit ds)"
  shows "matchesDecimalGrammar allowMinus (sign @ ip @ fp)"
proof -
  note d = shape_dropWhile [OF ip fp]
  from assms(1) show ?thesis
  proof
    assume s: "sign = []"
    have "\<not> startsWith (ip @ fp) [0x2D]"
      using shape_no_minus [OF ip fp] by (rule no_minus_startsWith)
    with s fp show ?thesis
      by (auto simp: matchesDecimalGrammar_def d)
  next
    assume s: "sign = [0x2D] \<and> allowMinus"
    with fp show ?thesis
      by (auto simp: matchesDecimalGrammar_def startsWith_minus d)
  qed
qed

lemma keepFirstDot_fixed:
  assumes ip: "0x2E \<notin> set ip" and fp: "fp = [] \<or> (\<exists>ds. fp = 0x2E # ds \<and> 0x2E \<notin> set ds)"
  shows "keepFirstDot (ip @ fp) = ip @ fp"
proof -
  from ip have "takeWhile (\<lambda>c. c \<noteq> 0x2E) (ip @ fp) = ip @ takeWhile (\<lambda>c. c \<noteq> 0x2E) fp"
    by (intro takeWhile_append2) auto
  also from fp have "takeWhile (\<lambda>c. c \<noteq> 0x2E) fp = []" by auto
  finally have t: "takeWhile (\<lambda>c. c \<noteq> 0x2E) (ip @ fp) = ip" by simp
  from ip have "dropWhile (\<lambda>c. c \<noteq> 0x2E) (ip @ fp) = dropWhile (\<lambda>c. c \<noteq> 0x2E) fp"
    by (intro dropWhile_append2) auto
  also from fp have "\<dots> = fp" by auto
  finally have d: "dropWhile (\<lambda>c. c \<noteq> 0x2E) (ip @ fp) = fp" .
  from fp show ?thesis
    unfolding keepFirstDot_def t d by (auto simp: filter_id_conv)
qed

lemma shape_fixed:
  assumes sg: "sign = [] \<or> sign = [0x2D] \<and> mode = SignedDecimal"
    and ip: "list_all isDigit ip"
    and fp: "fp = [] \<or> (\<exists>ds. fp = 0x2E # ds \<and> list_all isDigit ds)"
  shows "normalizeInput (sign @ ip @ fp) mode = sign @ ip @ fp"
proof -
  let ?t = "sign @ ip @ fp"
  have ok: "\<forall>c \<in> set ?t. c \<noteq> 0x2C \<and> (isDigit c \<or> c = 0x2D \<or> c = 0x2E)"
    using sg ip fp by (auto simp: list_all_iff dest: digit_neq)
  then have r: "replaceAll 0x2C 0x2E ?t = ?t"
    unfolding replaceAll_def by (intro map_idI) auto
  from ok have s1: "filter (\<lambda>c. isDigit c \<or> c = 0x2D \<or> c = 0x2E) ?t = ?t"
    by (auto simp: filter_id_conv)
  note nm = shape_no_minus [OF ip fp]
  then have f: "filter (\<lambda>c. c \<noteq> 0x2D) (ip @ fp) = ip @ fp"
    by (intro filter_True) auto
  have ipd: "0x2E \<notin> set ip"
    using ip by (auto simp: list_all_iff dest: digit_neq)
  have fpd: "fp = [] \<or> (\<exists>ds. fp = 0x2E # ds \<and> 0x2E \<notin> set ds)"
    using fp by (auto simp: list_all_iff dest: digit_neq)
  note k = keepFirstDot_fixed [OF ipd fpd]
  from sg show ?thesis
  proof
    assume s: "sign = []"
    have "\<not> startsWith (ip @ fp) [0x2D]"
      using nm by (rule no_minus_startsWith)
    then show ?thesis
      unfolding normalizeInput_closed Let_def r s1 unfolding s using f k by simp
  next
    assume s: "sign = [0x2D] \<and> mode = SignedDecimal"
    then have "startsWith ?t [0x2D]"
      by (simp add: startsWith_minus)
    then show ?thesis
      unfolding normalizeInput_closed Let_def r s1 using s f k
      by (simp add: keepFirstDot_minus)
  qed
qed

subsection \<open>Grammar and idempotence\<close>

lemma normalizeInput_digits_dots:
  assumes "list_all (\<lambda>c. isDigit c \<or> c = 0x2E) s"
  shows "normalizeInput s mode = keepFirstDot s"
proof -
  from assms have ok: "\<forall>c \<in> set s. c \<noteq> 0x2C \<and> c \<noteq> 0x2D \<and> (isDigit c \<or> c = 0x2D \<or> c = 0x2E)"
    by (auto simp: list_all_iff dest: digit_neq)
  then have r: "replaceAll 0x2C 0x2E s = s"
    unfolding replaceAll_def by (intro map_idI) auto
  from ok have s1: "filter (\<lambda>c. isDigit c \<or> c = 0x2D \<or> c = 0x2E) s = s"
    by (intro filter_True) auto
  from ok have s2: "filter (\<lambda>c. c \<noteq> 0x2D) s = s"
    by (intro filter_True) auto
  from ok have "0x2D \<notin> set s" by auto
  then have "\<not> startsWith s [0x2D]" by (rule no_minus_startsWith)
  then show ?thesis
    unfolding normalizeInput_closed Let_def r s1 s2 by simp
qed

lemma shape_one_dot:
  assumes "sign = [] \<or> sign = [0x2D] \<and> allowMinus"
    and "list_all isDigit ip"
    and "fp = [] \<or> (\<exists>ds. fp = 0x2E # ds \<and> list_all isDigit ds)"
  shows "count_list (sign @ ip @ fp) 0x2E \<le> 1"
proof -
  have d: "count_list ds 0x2E = 0" if "list_all isDigit ds" for ds
    using that by (intro count_notin) (auto simp: list_all_iff dest: digit_neq)
  from assms show ?thesis
    by (auto simp: d)
qed

lemma shape_minus_leading:
  assumes "sign = [] \<or> sign = [0x2D] \<and> allowMinus"
    and ip: "list_all isDigit ip"
    and fp: "fp = [] \<or> (\<exists>ds. fp = 0x2E # ds \<and> list_all isDigit ds)"
  shows "0x2D \<notin> set (drop 1 (sign @ ip @ fp))"
    and "\<not> allowMinus \<Longrightarrow> 0x2D \<notin> set (sign @ ip @ fp)"
proof -
  note nm = shape_no_minus [OF ip fp]
  from assms(1) show "0x2D \<notin> set (drop 1 (sign @ ip @ fp))"
  proof
    assume "sign = []"
    with nm show ?thesis
      by (auto dest: in_set_dropD)
  next
    assume "sign = [0x2D] \<and> allowMinus"
    with nm show ?thesis by simp
  qed
  assume "\<not> allowMinus"
  with assms(1) have "sign = []" by auto
  with nm show "0x2D \<notin> set (sign @ ip @ fp)" by simp
qed

lemma normalizeInput_1dot2dot3: "normalizeInput (js ''1.2.3'') mode = js ''1.23''"
  by (cases mode; code_simp)

lemma filter_minus_allowed:
  "filter (\<lambda>c. c \<noteq> 0x2D) (filter (\<lambda>c. isDigit c \<or> c = 0x2D \<or> c = 0x2E) s) =
   filter (\<lambda>c. isDigit c \<or> c = 0x2E) s"
  by (induction s) (auto dest: digit_neq)

lemma normalizeInput_general:
  "normalizeInput s mode =
     keepFirstDot
       ((if mode = SignedDecimal \<and>
            startsWith (filter (\<lambda>c. isDigit c \<or> c = 0x2D \<or> c = 0x2E) (replaceAll 0x2C 0x2E s))
              [0x2D]
         then [0x2D] else []) @
        filter (\<lambda>c. isDigit c \<or> c = 0x2E) (replaceAll 0x2C 0x2E s))"
  unfolding normalizeInput_closed Let_def filter_minus_allowed by simp

lemma normalizeInput_minus1dot2dot3:
  "normalizeInput (js ''-1.2.3'') SignedDecimal = js ''-1.23'' \<and>
   normalizeInput (js ''-1.2.3'') UnsignedDecimal = js ''1.23''"
  by code_simp

text \<open>
  C6. For every string and mode the result of \<open>normalizeInput\<close> matches
  \<open>-?[0-9]*(\.[0-9]*)?\<close>: it is an optional minus sign, present only in signed mode,
  then digits, then optionally a dot and digits.  So it has at most one dot, and a
  minus sign can only be its first code unit and only in signed mode.  The result is
  determined for every input: with the commas read as dots, it is the minus sign (in
  signed mode, when a minus comes before every digit and dot) followed by the digits
  and dots of the input, of which the text up to the first dot and that dot are kept
  and the digits of the later segments follow.  \<open>1.2.3\<close> becomes \<open>1.23\<close>, and
  \<open>-1.2.3\<close> becomes \<open>-1.23\<close> in signed and \<open>1.23\<close> in unsigned mode.
\<close>

theorem normalizeInput_grammar:
  "(\<exists>sign ip fp.
      normalizeInput s mode = sign @ ip @ fp \<and>
      (sign = [] \<or> sign = [0x2D] \<and> mode = SignedDecimal) \<and>
      list_all isDigit ip \<and>
      (fp = [] \<or> (\<exists>ds. fp = 0x2E # ds \<and> list_all isDigit ds))) \<and>
   matchesDecimalGrammar (mode = SignedDecimal) (normalizeInput s mode) \<and>
   count_list (normalizeInput s mode) 0x2E \<le> 1 \<and>
   0x2D \<notin> set (drop 1 (normalizeInput s mode)) \<and>
   (mode = UnsignedDecimal \<longrightarrow> 0x2D \<notin> set (normalizeInput s mode)) \<and>
   (list_all (\<lambda>c. isDigit c \<or> c = 0x2E) s \<longrightarrow> normalizeInput s mode = keepFirstDot s) \<and>
   normalizeInput (js ''1.2.3'') mode = js ''1.23'' \<and>
   normalizeInput s mode =
     keepFirstDot
       ((if mode = SignedDecimal \<and>
            startsWith (filter (\<lambda>c. isDigit c \<or> c = 0x2D \<or> c = 0x2E) (replaceAll 0x2C 0x2E s))
              [0x2D]
         then [0x2D] else []) @
        filter (\<lambda>c. isDigit c \<or> c = 0x2E) (replaceAll 0x2C 0x2E s)) \<and>
   normalizeInput (js ''-1.2.3'') SignedDecimal = js ''-1.23'' \<and>
   normalizeInput (js ''-1.2.3'') UnsignedDecimal = js ''1.23''"
proof -
  obtain sign ip fp where n: "normalizeInput s mode = sign @ ip @ fp"
    and sg: "sign = [] \<or> sign = [0x2D] \<and> mode = SignedDecimal"
    and ip: "list_all isDigit ip"
    and fp: "fp = [] \<or> (\<exists>ds. fp = 0x2E # ds \<and> list_all isDigit ds)"
    by (rule normalizeInput_shape)
  have 1: "\<exists>sign ip fp.
      normalizeInput s mode = sign @ ip @ fp \<and>
      (sign = [] \<or> sign = [0x2D] \<and> mode = SignedDecimal) \<and>
      list_all isDigit ip \<and>
      (fp = [] \<or> (\<exists>ds. fp = 0x2E # ds \<and> list_all isDigit ds))"
    using n sg ip fp by blast
  have 2: "matchesDecimalGrammar (mode = SignedDecimal) (normalizeInput s mode)"
    unfolding n using sg ip fp by (rule shape_matches)
  have 3: "count_list (normalizeInput s mode) 0x2E \<le> 1"
    unfolding n using sg ip fp by (rule shape_one_dot)
  have 4: "0x2D \<notin> set (drop 1 (normalizeInput s mode))"
    unfolding n using sg ip fp by (rule shape_minus_leading(1))
  have 5: "mode = UnsignedDecimal \<longrightarrow> 0x2D \<notin> set (normalizeInput s mode)"
    unfolding n using shape_minus_leading(2) [OF sg ip fp] by simp
  have 6: "list_all (\<lambda>c. isDigit c \<or> c = 0x2E) s \<longrightarrow> normalizeInput s mode = keepFirstDot s"
    by (simp add: normalizeInput_digits_dots)
  note 7 = normalizeInput_1dot2dot3 [of mode]
  note 8 = normalizeInput_general [of s mode]
  note 9 = normalizeInput_minus1dot2dot3
  show ?thesis
    by (intro conjI) (rule 1 2 3 4 5 6 7 8 9 [THEN conjunct1] 9 [THEN conjunct2])+
qed

theorem normalizeInput_grammar_witness:
  "list_all (\<lambda>c. isDigit c \<or> c = 0x2E) (js ''12.5.75.'') \<and>
   normalizeInput (js ''12.5.75.'') UnsignedDecimal = js ''12.575'' \<and>
   0x2D \<notin> set (normalizeInput (js ''12.5.75.'') UnsignedDecimal) \<and>
   matchesDecimalGrammar True (normalizeInput (js ''-1,2-a.3'') SignedDecimal) \<and>
   normalizeInput (js ''-1,2-a.3'') SignedDecimal = js ''-1.23'' \<and>
   normalizeInput (js ''x-7,,5-'') UnsignedDecimal = js ''7.5''"
proof -
  have l: "list_all (\<lambda>c. isDigit c \<or> c = 0x2E) (js ''12.5.75.'')"
    by code_simp
  have k: "keepFirstDot (js ''12.5.75.'') = js ''12.575''"
    by code_simp
  from l normalizeInput_grammar [of "js ''12.5.75.''" UnsignedDecimal]
  have "normalizeInput (js ''12.5.75.'') UnsignedDecimal = keepFirstDot (js ''12.5.75.'')"
    and "0x2D \<notin> set (normalizeInput (js ''12.5.75.'') UnsignedDecimal)"
    by blast+
  moreover from normalizeInput_grammar [of "js ''-1,2-a.3''" SignedDecimal]
  have "matchesDecimalGrammar (SignedDecimal = SignedDecimal)
      (normalizeInput (js ''-1,2-a.3'') SignedDecimal)"
    by blast
  then have "matchesDecimalGrammar True (normalizeInput (js ''-1,2-a.3'') SignedDecimal)"
    by simp
  moreover have "normalizeInput (js ''-1,2-a.3'') SignedDecimal = js ''-1.23''"
  proof -
    have "keepFirstDot
       ((if SignedDecimal = SignedDecimal \<and>
            startsWith (filter (\<lambda>c. isDigit c \<or> c = 0x2D \<or> c = 0x2E)
              (replaceAll 0x2C 0x2E (js ''-1,2-a.3''))) [0x2D]
         then [0x2D] else []) @
        filter (\<lambda>c. isDigit c \<or> c = 0x2E) (replaceAll 0x2C 0x2E (js ''-1,2-a.3'')))
      = js ''-1.23''"
      by code_simp
    with normalizeInput_grammar [of "js ''-1,2-a.3''" SignedDecimal] show ?thesis
      by presburger
  qed
  moreover have "normalizeInput (js ''x-7,,5-'') UnsignedDecimal = js ''7.5''"
  proof -
    have "keepFirstDot
       ((if UnsignedDecimal = SignedDecimal \<and>
            startsWith (filter (\<lambda>c. isDigit c \<or> c = 0x2D \<or> c = 0x2E)
              (replaceAll 0x2C 0x2E (js ''x-7,,5-''))) [0x2D]
         then [0x2D] else []) @
        filter (\<lambda>c. isDigit c \<or> c = 0x2E) (replaceAll 0x2C 0x2E (js ''x-7,,5-'')))
      = js ''7.5''"
      by code_simp
    with normalizeInput_grammar [of "js ''x-7,,5-''" UnsignedDecimal] show ?thesis
      by presburger
  qed
  ultimately show ?thesis
    using l unfolding k by blast
qed

text \<open>
  C7. \<open>normalizeInput\<close> is idempotent: normalising a normalised text in the same
  mode changes nothing.
\<close>

theorem normalizeInput_idempotent:
  "normalizeInput (normalizeInput s mode) mode = normalizeInput s mode"
proof -
  obtain sign ip fp where "normalizeInput s mode = sign @ ip @ fp"
    and "sign = [] \<or> sign = [0x2D] \<and> mode = SignedDecimal"
    and "list_all isDigit ip"
    and "fp = [] \<or> (\<exists>ds. fp = 0x2E # ds \<and> list_all isDigit ds)"
    by (rule normalizeInput_shape)
  then show ?thesis by (simp add: shape_fixed)
qed

theorem normalizeInput_idempotent_witness:
  "normalizeInput (js ''-1,2-a.3'') SignedDecimal = js ''-1.23'' \<and>
   normalizeInput (js ''-1.23'') SignedDecimal = js ''-1.23''"
proof -
  have n: "normalizeInput (js ''-1,2-a.3'') SignedDecimal = js ''-1.23''"
    by code_simp
  from normalizeInput_idempotent [of "js ''-1,2-a.3''" SignedDecimal]
  show ?thesis unfolding n by simp
qed

section \<open>The QR codec: round trip\<close>

subsection \<open>Decoding an escaped code point\<close>

lemma andThen_Inr [simp]: "andThen r (Inr t) = Inr (r @ t)"
  by (simp add: andThen_def)

lemma andThen_Inl [simp]: "andThen r (Inl e) = Inl e"
  by (simp add: andThen_def)

lemma andThen_andThen: "andThen a (andThen b k) = andThen (a @ b) k"
  by (cases k) simp_all

lemma hexDigit_table:
  "\<forall>n \<in> set [0..<16]. hexValue (hexDigit n) = Some n \<and> \<not> isWhiteSpace (hexDigit n)"
  by code_simp

lemma hexValue_hexDigit: "n < 16 \<Longrightarrow> hexValue (hexDigit n) = Some n"
  using hexDigit_table by simp

lemma hexDigit_not_ws: "n < 16 \<Longrightarrow> \<not> isWhiteSpace (hexDigit n)"
  using hexDigit_table by simp

lemma parseHexOctet_escape:
  assumes "b < 256"
  shows "parseHexOctet (hexDigit (b div 16)) (hexDigit (b mod 16)) = Some b"
proof -
  from assms have "b div 16 < 16" "b mod 16 < 16" by simp_all
  then show ?thesis
    by (simp add: parseHexOctet_def hexValue_hexDigit)
qed

lemma decode_plain: "c \<noteq> 0x25 \<Longrightarrow> decodeURIComponent (c # s) = andThen [c] (decodeURIComponent s)"
  by simp

lemma decode_escape:
  assumes "b < 256"
  shows "decodeURIComponent (escapeOctet b @ r) =
     (let n = leadingOnes b
      in if n = 0 then andThen [of_nat b] (decodeURIComponent r)
         else if n = 1 \<or> n > 4 then Inl URIError
         else
           (case continuation (n - 1) r of
              None \<Rightarrow> Inl URIError
            | Some octets \<Rightarrow>
                (case utf8Decode (b # octets) of
                   None \<Rightarrow> Inl URIError
                 | Some v \<Rightarrow>
                     andThen (utf16Encode v)
                       (decodeURIComponent (drop (3 * (n - 1)) r)))))"
  by (simp add: escapeOctet_def parseHexOctet_escape [OF assms])

lemma continuation_escape:
  assumes "b < 256"
  shows "continuation (Suc j) (escapeOctet b @ r) = map_option ((#) b) (continuation j r)"
  by (simp add: escapeOctet_def parseHexOctet_escape [OF assms])


lemma length_escapeOctet [simp]: "length (escapeOctet b) = 3"
  by (simp add: escapeOctet_def)

lemma decode_codepoint_1:
  assumes "cp < 0x80"
  shows "decodeURIComponent (escapeCodePoint cp @ t) = andThen (utf16Encode cp) (decodeURIComponent t)"
proof -
  from assms have e: "escapeCodePoint cp = escapeOctet cp"
    by (simp add: escapeCodePoint_def utf8Encode_def)
  from assms have b: "cp < 256" by simp
  from assms show ?thesis
    unfolding e decode_escape [OF b] by (simp add: leadingOnes_def utf16Encode_def)
qed

lemma decode_codepoint_2:
  assumes "0x80 \<le> cp" and "cp < 0x800"
  shows "decodeURIComponent (escapeCodePoint cp @ t) = andThen (utf16Encode cp) (decodeURIComponent t)"
proof -
  let ?b1 = "0xC0 + cp div 64" and ?b2 = "0x80 + cp mod 64"
  from assms have e: "escapeCodePoint cp @ t = escapeOctet ?b1 @ escapeOctet ?b2 @ t"
    by (simp add: escapeCodePoint_def utf8Encode_def)
  from assms have b1: "?b1 < 256" and b2: "?b2 < 256" by simp_all
  from assms have l: "leadingOnes ?b1 = 2"
    by (simp add: leadingOnes_def)
  have c: "continuation (Suc 0) (escapeOctet ?b2 @ t) = Some [?b2]"
    unfolding continuation_escape [OF b2] by simp
  from assms have u: "utf8Decode [?b1, ?b2] = Some cp"
    by (simp add: utf8Decode_def isContinuationOctet_def)
  show ?thesis
    unfolding e decode_escape [OF b1] l using c u by simp
qed

lemma utf8_parts_3:
  "cp div 4096 * 4096 + (cp div 64) mod 64 * 64 + cp mod 64 = (cp :: nat)"
proof -
  define q where "q = cp div 64"
  have "cp div 4096 = q div 64"
    by (simp add: q_def div_mult2_eq)
  moreover have "q div 64 * 64 + q mod 64 = q"
    by simp
  moreover have "q * 64 + cp mod 64 = cp"
    by (simp add: q_def)
  ultimately show ?thesis
    unfolding q_def [symmetric] by linarith
qed

lemma utf8_parts_4:
  "cp div 262144 * 262144 + (cp div 4096) mod 64 * 4096 + (cp div 64) mod 64 * 64 + cp mod 64
     = (cp :: nat)"
proof -
  define q where "q = cp div 4096"
  have "cp div 262144 = q div 64"
    by (simp add: q_def div_mult2_eq)
  moreover have "q div 64 * 64 + q mod 64 = q"
    by simp
  moreover have "q * 4096 + (cp div 64) mod 64 * 64 + cp mod 64 = cp"
    using utf8_parts_3 [of cp] by (simp add: q_def)
  ultimately show ?thesis
    unfolding q_def [symmetric] by linarith
qed

lemma decode_codepoint_3:
  assumes "0x800 \<le> cp" and "cp < 0x10000" and "\<not> (0xD800 \<le> cp \<and> cp \<le> 0xDFFF)"
  shows "decodeURIComponent (escapeCodePoint cp @ t) = andThen (utf16Encode cp) (decodeURIComponent t)"
proof -
  let ?b1 = "0xE0 + cp div 4096" and ?b2 = "0x80 + (cp div 64) mod 64" and ?b3 = "0x80 + cp mod 64"
  from assms have e: "escapeCodePoint cp @ t = escapeOctet ?b1 @ escapeOctet ?b2 @ escapeOctet ?b3 @ t"
    by (simp add: escapeCodePoint_def utf8Encode_def)
  from assms have b1: "?b1 < 256" and b2: "?b2 < 256" and b3: "?b3 < 256" by simp_all
  from assms have l: "leadingOnes ?b1 = 3"
    by (simp add: leadingOnes_def)
  have c: "continuation (Suc (Suc 0)) (escapeOctet ?b2 @ escapeOctet ?b3 @ t) = Some [?b2, ?b3]"
    unfolding continuation_escape [OF b2] continuation_escape [OF b3] by simp
  have v: "cp div 4096 * 4096 + (cp div 64) mod 64 * 64 + cp mod 64 = cp"
    by (rule utf8_parts_3)
  from assms have u: "utf8Decode [?b1, ?b2, ?b3] = Some cp"
    by (simp add: utf8Decode_def isContinuationOctet_def v)
  show ?thesis
    unfolding e decode_escape [OF b1] l using c u by (simp add: numeral_2_eq_2)
qed

lemma decode_codepoint_4:
  assumes "0x10000 \<le> cp" and "cp \<le> 0x10FFFF"
  shows "decodeURIComponent (escapeCodePoint cp @ t) = andThen (utf16Encode cp) (decodeURIComponent t)"
proof -
  let ?b1 = "0xF0 + cp div 262144" and ?b2 = "0x80 + (cp div 4096) mod 64"
    and ?b3 = "0x80 + (cp div 64) mod 64" and ?b4 = "0x80 + cp mod 64"
  from assms have e: "escapeCodePoint cp @ t =
      escapeOctet ?b1 @ escapeOctet ?b2 @ escapeOctet ?b3 @ escapeOctet ?b4 @ t"
    by (simp add: escapeCodePoint_def utf8Encode_def)
  from assms have b1: "?b1 < 256" and b2: "?b2 < 256" and b3: "?b3 < 256" and b4: "?b4 < 256"
    by simp_all
  from assms have l: "leadingOnes ?b1 = 4"
    by (simp add: leadingOnes_def)
  have c: "continuation (Suc (Suc (Suc 0))) (escapeOctet ?b2 @ escapeOctet ?b3 @ escapeOctet ?b4 @ t)
      = Some [?b2, ?b3, ?b4]"
    unfolding continuation_escape [OF b2] continuation_escape [OF b3] continuation_escape [OF b4]
    by simp
  have v: "cp div 262144 * 262144 + (cp div 4096) mod 64 * 4096 + (cp div 64) mod 64 * 64 + cp mod 64 = cp"
    by (rule utf8_parts_4)
  from assms have u: "utf8Decode [?b1, ?b2, ?b3, ?b4] = Some cp"
    by (simp add: utf8Decode_def isContinuationOctet_def v)
  show ?thesis
    unfolding e decode_escape [OF b1] l using c u by (simp add: numeral_3_eq_3)
qed

lemma decode_codepoint:
  assumes "cp \<le> 0x10FFFF" and "\<not> (0xD800 \<le> cp \<and> cp \<le> 0xDFFF)"
  shows "decodeURIComponent (escapeCodePoint cp @ t) = andThen (utf16Encode cp) (decodeURIComponent t)"
proof -
  consider "cp < 0x80" | "0x80 \<le> cp" "cp < 0x800" | "0x800 \<le> cp" "cp < 0x10000"
    | "0x10000 \<le> cp"
    by linarith
  then show ?thesis
  proof cases
    case 1 then show ?thesis by (rule decode_codepoint_1)
  next
    case 2 then show ?thesis by (rule decode_codepoint_2)
  next
    case 3 with assms(2) show ?thesis by (intro decode_codepoint_3)
  next
    case 4 with assms(1) show ?thesis by (intro decode_codepoint_4)
  qed
qed

subsection \<open>Code units and surrogates\<close>

lemma unat_16: "unat (c :: code_unit) < 65536"
  using unsigned_less [of c, where 'a = nat] by simp

lemma utf16Encode_unat: "utf16Encode (unat (c :: code_unit)) = [c]"
proof -
  have "unat c \<le> 0xFFFF" using unat_16 [of c] by linarith
  then show ?thesis by (simp add: utf16Encode_def)
qed

lemma surrogate_unat:
  "isLeadSurrogate c \<longleftrightarrow> 0xD800 \<le> unat c \<and> unat c \<le> 0xDBFF"
  "isTrailSurrogate c \<longleftrightarrow> 0xDC00 \<le> unat c \<and> unat c \<le> 0xDFFF"
  by (simp_all add: isLeadSurrogate_def isTrailSurrogate_def word_le_nat_alt)

lemma surrogatePair_range:
  assumes "isLeadSurrogate c" and "isTrailSurrogate d"
  shows "0x10000 \<le> surrogatePair c d" and "surrogatePair c d \<le> 0x10FFFF"
proof -
  from assms have "unat c - 0xD800 \<le> 0x3FF" "unat d - 0xDC00 \<le> 0x3FF"
    unfolding surrogate_unat by linarith+
  then have "(unat c - 0xD800) * 0x400 + (unat d - 0xDC00) \<le> 0x3FF * 0x400 + 0x3FF"
    by (intro add_mono mult_right_mono) simp_all
  then show "surrogatePair c d \<le> 0x10FFFF"
    by (simp add: surrogatePair_def)
  show "0x10000 \<le> surrogatePair c d"
    by (simp add: surrogatePair_def)
qed

lemma utf16Encode_surrogatePair:
  assumes "isLeadSurrogate c" and "isTrailSurrogate d"
  shows "utf16Encode (surrogatePair c d) = [c, d]"
proof -
  define h where "h = unat c - 0xD800"
  define l where "l = unat d - 0xDC00"
  from assms have hl: "l < 0x400" "unat c = h + 0xD800" "unat d = l + 0xDC00"
    unfolding surrogate_unat h_def l_def by linarith+
  have sp: "surrogatePair c d = h * 0x400 + l + 0x10000"
    by (simp add: surrogatePair_def h_def l_def)
  from hl have "(h * 0x400 + l) div 0x400 = h" "(h * 0x400 + l) mod 0x400 = l"
    by simp_all
  then have "utf16Encode (surrogatePair c d) = [of_nat (unat c), of_nat (unat d)]"
    unfolding sp hl by (simp add: utf16Encode_def)
  then show ?thesis by simp
qed

lemma unescaped_unat:
  "uriUnescaped c \<longleftrightarrow>
     (0x41 \<le> unat c \<and> unat c \<le> 0x5A) \<or> (0x61 \<le> unat c \<and> unat c \<le> 0x7A) \<or>
     (0x30 \<le> unat c \<and> unat c \<le> 0x39) \<or>
     unat c \<in> {0x2D, 0x5F, 0x2E, 0x21, 0x7E, 0x2A, 0x27, 0x28, 0x29}"
  by (simp add: uriUnescaped_def isUpper_def isLower_def isDigit_def word_le_nat_alt
      word_unat_eq_iff)

lemma whiteSpace_unat:
  "isWhiteSpace c \<longleftrightarrow>
     unat c \<in> {0x09, 0x0A, 0x0B, 0x0C, 0x0D, 0x20, 0xA0, 0x1680, 0x2028, 0x2029, 0x202F,
       0x205F, 0x3000, 0xFEFF} \<or> (0x2000 \<le> unat c \<and> unat c \<le> 0x200A)"
  by (auto simp add: isWhiteSpace_def word_le_nat_alt word_unat_eq_iff)

lemma unescaped_plain:
  assumes "uriUnescaped c"
  shows "c \<noteq> 0x25" and "\<not> isWhiteSpace c" and "\<not> isLeadSurrogate c" and "\<not> isTrailSurrogate c"
  using assms by (auto simp: unescaped_unat whiteSpace_unat surrogate_unat word_unat_eq_iff)


lemma percent_not_ws: "\<not> isWhiteSpace 0x25"
  by (simp add: isWhiteSpace_def)

lemma escapeOctet_not_ws:
  assumes "b < 256" and "c \<in> set (escapeOctet b)"
  shows "\<not> isWhiteSpace c"
proof -
  from assms(1) have "b div 16 < 16" "b mod 16 < 16" by simp_all
  with assms(2) show ?thesis
    by (auto simp: escapeOctet_def percent_not_ws hexDigit_not_ws)
qed

lemma utf8Encode_octets:
  assumes "cp \<le> 0x10FFFF" and "b \<in> set (utf8Encode cp)"
  shows "b < 256"
proof -
  from assms(1) have "cp div 262144 \<le> 4"
    by simp
  with assms(2) show ?thesis
    by (auto simp: utf8Encode_def split: if_splits)
qed

lemma escapeCodePoint_not_ws:
  assumes "cp \<le> 0x10FFFF" and "c \<in> set (escapeCodePoint cp)"
  shows "\<not> isWhiteSpace c"
  using assms by (auto simp: escapeCodePoint_def dest: utf8Encode_octets escapeOctet_not_ws)

text \<open>One code point at a time.\<close>

lemma roundtrip_unit:
  assumes "\<not> isLeadSurrogate c" and "\<not> isTrailSurrogate c"
  defines "e \<equiv> (if uriUnescaped c then [c] else escapeCodePoint (unat c))"
  shows "decodeURIComponent (e @ t) = andThen [c] (decodeURIComponent t)"
    and "\<forall>u \<in> set e. \<not> isWhiteSpace u"
proof -
  have r: "unat c \<le> 0x10FFFF" "\<not> (0xD800 \<le> unat c \<and> unat c \<le> 0xDFFF)"
    using unat_16 [of c] assms(1,2) unfolding surrogate_unat by linarith+
  show "decodeURIComponent (e @ t) = andThen [c] (decodeURIComponent t)"
  proof (cases "uriUnescaped c")
    case True
    then show ?thesis
      by (simp add: e_def unescaped_plain(1))
  next
    case False
    then show ?thesis
      using decode_codepoint [OF r] by (simp add: e_def utf16Encode_unat)
  qed
  show "\<forall>u \<in> set e. \<not> isWhiteSpace u"
    using escapeCodePoint_not_ws [OF r(1)] by (auto simp: e_def unescaped_plain(2))
qed

lemma roundtrip_pair:
  assumes "isLeadSurrogate c" and "isTrailSurrogate d"
  shows "decodeURIComponent (escapeCodePoint (surrogatePair c d) @ t) =
      andThen [c, d] (decodeURIComponent t)"
    and "\<forall>u \<in> set (escapeCodePoint (surrogatePair c d)). \<not> isWhiteSpace u"
proof -
  note r = surrogatePair_range [OF assms]
  from r have n: "\<not> (0xD800 \<le> surrogatePair c d \<and> surrogatePair c d \<le> 0xDFFF)"
    by linarith
  show "decodeURIComponent (escapeCodePoint (surrogatePair c d) @ t) =
      andThen [c, d] (decodeURIComponent t)"
    using decode_codepoint [OF r(2) n] by (simp add: utf16Encode_surrogatePair [OF assms])
  show "\<forall>u \<in> set (escapeCodePoint (surrogatePair c d)). \<not> isWhiteSpace u"
    using escapeCodePoint_not_ws [OF r(2)] by auto
qed

lemma lead_not_trail: "isLeadSurrogate c \<Longrightarrow> \<not> isTrailSurrogate c"
  unfolding surrogate_unat by linarith

lemma roundtrip_aux:
  "isWellFormed x \<Longrightarrow>
   \<exists>e. encodeURIComponent x = Inr e \<and>
       (\<forall>t. decodeURIComponent (e @ t) = andThen x (decodeURIComponent t)) \<and>
       (\<forall>u \<in> set e. \<not> isWhiteSpace u)"
proof (induction x rule: isWellFormed.induct)
  case 1
  show ?case by (simp add: andThen_def split: sum.split)
next
  case (2 c)
  then have c: "\<not> isLeadSurrogate c" "\<not> isTrailSurrogate c" by simp_all
  let ?e = "if uriUnescaped c then [c] else escapeCodePoint (unat c)"
  from c have "encodeURIComponent [c] = Inr ?e" by simp
  with roundtrip_unit [OF c] show ?case by simp
next
  case (3 c d s)
  show ?case
  proof (cases "isLeadSurrogate c")
    case True
    with "3.prems" have d: "isTrailSurrogate d" and wf: "isWellFormed s" by simp_all
    from "3.IH"(1) [OF True wf] obtain e where e: "encodeURIComponent s = Inr e"
      "\<forall>t. decodeURIComponent (e @ t) = andThen s (decodeURIComponent t)"
      "\<forall>u \<in> set e. \<not> isWhiteSpace u"
      by blast
    let ?p = "escapeCodePoint (surrogatePair c d)"
    from True d e(1) have "encodeURIComponent (c # d # s) = Inr (?p @ e)"
      using unescaped_plain(3) [of c] lead_not_trail [of c] by auto
    moreover have "\<forall>t. decodeURIComponent ((?p @ e) @ t) = andThen (c # d # s) (decodeURIComponent t)"
      using roundtrip_pair(1) [OF True d] e(2) by (simp add: andThen_andThen)
    moreover have "\<forall>u \<in> set (?p @ e). \<not> isWhiteSpace u"
      using roundtrip_pair(2) [OF True d] e(3) by auto
    ultimately show ?thesis by blast
  next
    case False
    with "3.prems" have c: "\<not> isTrailSurrogate c" and wf: "isWellFormed (d # s)" by simp_all
    from "3.IH"(2) [OF False wf] obtain e where e: "encodeURIComponent (d # s) = Inr e"
      "\<forall>t. decodeURIComponent (e @ t) = andThen (d # s) (decodeURIComponent t)"
      "\<forall>u \<in> set e. \<not> isWhiteSpace u"
      by blast
    let ?p = "if uriUnescaped c then [c] else escapeCodePoint (unat c)"
    from False c e(1) have "encodeURIComponent (c # d # s) = Inr (?p @ e)"
      by simp
    moreover have "\<forall>t. decodeURIComponent ((?p @ e) @ t) = andThen (c # d # s) (decodeURIComponent t)"
      using roundtrip_unit(1) [OF False c] e(2) by (simp add: andThen_andThen)
    moreover have "\<forall>u \<in> set (?p @ e). \<not> isWhiteSpace u"
      using roundtrip_unit(2) [OF False c] e(3) by auto
    ultimately show ?thesis by blast
  qed
qed

subsection \<open>Encoding, then decoding\<close>

lemma trim_fixed:
  assumes "\<forall>u \<in> set s. \<not> isWhiteSpace u"
  shows "trim s = s"
proof (cases "s = []")
  case True
  then show ?thesis by (simp add: trim_def trimEnd_def trimStart_def)
next
  case False
  then have "hd s \<in> set s" "last s \<in> set s" by simp_all
  with assms have "\<not> isWhiteSpace (hd s)" "\<not> isWhiteSpace (last s)" by blast+
  with False trim_sandwich [of "[]" "[]" s] show ?thesis by simp
qed

lemma QR_PREFIX_not_ws: "\<forall>u \<in> set QR_PREFIX. \<not> isWhiteSpace u"
  by code_simp

lemma ascii_wellFormed:
  "\<forall>c \<in> set x. c < 0x80 \<Longrightarrow> isWellFormed x"
proof (induction x rule: isWellFormed.induct)
  case 1
  show ?case by simp
next
  case (2 c)
  then have "unat c < 0x80" by (simp add: word_less_nat_alt)
  then show ?case by (simp add: surrogate_unat)
next
  case (3 c d s)
  then have "unat c < 0x80" by (simp add: word_less_nat_alt)
  then have "\<not> isLeadSurrogate c" "\<not> isTrailSurrogate c" by (simp_all add: surrogate_unat)
  with 3 show ?case by simp
qed

lemma qr_roundtrip_wellFormed:
  assumes ne: "x \<noteq> []" and h: "\<not> isWhiteSpace (hd x)" and l: "\<not> isWhiteSpace (last x)"
    and wf: "isWellFormed x"
  shows "\<exists>p. buildChillerQrValue x = Inr p \<and> parseChillerIdFromQr p = Inr (Some x)"
proof -
  from roundtrip_aux [OF wf] obtain e where e: "encodeURIComponent x = Inr e"
    and d: "\<forall>t. decodeURIComponent (e @ t) = andThen x (decodeURIComponent t)"
    and w: "\<forall>u \<in> set e. \<not> isWhiteSpace u"
    by blast
  let ?p = "QR_PREFIX @ e"
  from e have b: "buildChillerQrValue x = Inr ?p"
    by (simp add: buildChillerQrValue_def)
  from w QR_PREFIX_not_ws have "\<forall>u \<in> set ?p. \<not> isWhiteSpace u" by auto
  then have t: "trim ?p = ?p" by (rule trim_fixed)
  have s: "startsWith ?p QR_PREFIX" by (simp add: startsWith_def)
  from d have "decodeURIComponent (e @ []) = andThen x (decodeURIComponent [])" by blast
  then have dec: "decodeURIComponent e = Inr x" by simp
  from ne h l trim_sandwich [of "[]" "[]" x] have tx: "trim x = x" by simp
  have "parseChillerIdFromQr ?p = Inr (Some x)"
    unfolding parseChillerIdFromQr_def t Let_def using s dec tx ne by simp
  with b show ?thesis by blast
qed

text \<open>
  C2. For every non-empty identifier without white space at its ends, made of ASCII
  characters only (letters, digits, punctuation and inner spaces), building the QR value
  succeeds and parsing it gives the identifier back.  The same holds for every
  well-formed string, that is with no unpaired surrogate.
\<close>

theorem qr_roundtrip:
  "(x \<noteq> [] \<and> \<not> isWhiteSpace (hd x) \<and> \<not> isWhiteSpace (last x) \<and> (\<forall>c \<in> set x. c < 0x80) \<longrightarrow>
      (\<exists>p. buildChillerQrValue x = Inr p \<and> parseChillerIdFromQr p = Inr (Some x))) \<and>
   (x \<noteq> [] \<and> \<not> isWhiteSpace (hd x) \<and> \<not> isWhiteSpace (last x) \<and> isWellFormed x \<longrightarrow>
      (\<exists>p. buildChillerQrValue x = Inr p \<and> parseChillerIdFromQr p = Inr (Some x)))"
  using qr_roundtrip_wellFormed [of x] ascii_wellFormed [of x] by blast

theorem qr_roundtrip_witness:
  "js ''Chiller 7/A_(b)'' \<noteq> [] \<and> \<not> isWhiteSpace (hd (js ''Chiller 7/A_(b)'')) \<and>
   \<not> isWhiteSpace (last (js ''Chiller 7/A_(b)'')) \<and>
   list_all (\<lambda>c. c < 0x80) (js ''Chiller 7/A_(b)'') \<and>
   buildChillerQrValue (js ''Chiller 7/A_(b)'') = Inr (js ''temp-monitor://chiller/Chiller%207%2FA_(b)'') \<and>
   parseChillerIdFromQr (js ''temp-monitor://chiller/Chiller%207%2FA_(b)'') =
     Inr (Some (js ''Chiller 7/A_(b)'')) \<and>
   isWellFormed [0x20AC, 0xD83D, 0xDE00] \<and>
   buildChillerQrValue [0x20AC, 0xD83D, 0xDE00] =
     Inr (js ''temp-monitor://chiller/%E2%82%AC%F0%9F%98%80'') \<and>
   parseChillerIdFromQr (js ''temp-monitor://chiller/%E2%82%AC%F0%9F%98%80'') =
     Inr (Some [0x20AC, 0xD83D, 0xDE00])"
proof -
  have h: "js ''Chiller 7/A_(b)'' \<noteq> [] \<and> \<not> isWhiteSpace (hd (js ''Chiller 7/A_(b)'')) \<and>
      \<not> isWhiteSpace (last (js ''Chiller 7/A_(b)'')) \<and>
      list_all (\<lambda>c. c < 0x80) (js ''Chiller 7/A_(b)'')"
    by (simp add: js_def isWhiteSpace_def)
  have b: "buildChillerQrValue (js ''Chiller 7/A_(b)'') =
      Inr (js ''temp-monitor://chiller/Chiller%207%2FA_(b)'')"
    by (simp add: js_def buildChillerQrValue_def QR_PREFIX_def uriUnescaped_def isUpper_def
        isLower_def isDigit_def isLeadSurrogate_def isTrailSurrogate_def escapeCodePoint_def
        utf8Encode_def escapeOctet_def hexDigit_def)
  from h [unfolded list_all_iff] qr_roundtrip [of "js ''Chiller 7/A_(b)''"] obtain p
    where "buildChillerQrValue (js ''Chiller 7/A_(b)'') = Inr p"
      and "parseChillerIdFromQr p = Inr (Some (js ''Chiller 7/A_(b)''))"
    by blast
  with b have 1: "parseChillerIdFromQr (js ''temp-monitor://chiller/Chiller%207%2FA_(b)'') =
     Inr (Some (js ''Chiller 7/A_(b)''))"
    by simp
  have u: "[0x20AC, 0xD83D, 0xDE00] \<noteq> ([] :: jsstring) \<and>
      \<not> isWhiteSpace (hd [0x20AC, 0xD83D, 0xDE00]) \<and>
      \<not> isWhiteSpace (last [0x20AC, 0xD83D, 0xDE00]) \<and> isWellFormed [0x20AC, 0xD83D, 0xDE00]"
    by (simp add: isWhiteSpace_def isLeadSurrogate_def isTrailSurrogate_def)
  have c: "buildChillerQrValue [0x20AC, 0xD83D, 0xDE00] =
      Inr (js ''temp-monitor://chiller/%E2%82%AC%F0%9F%98%80'')"
    by (simp add: js_def buildChillerQrValue_def QR_PREFIX_def uriUnescaped_def isUpper_def
        isLower_def isDigit_def isLeadSurrogate_def isTrailSurrogate_def escapeCodePoint_def
        utf8Encode_def escapeOctet_def hexDigit_def surrogatePair_def)
  from u qr_roundtrip [of "[0x20AC, 0xD83D, 0xDE00]"] obtain q
    where "buildChillerQrValue [0x20AC, 0xD83D, 0xDE00] = Inr q"
      and "parseChillerIdFromQr q = Inr (Some [0x20AC, 0xD83D, 0xDE00])"
    by blast
  with c have 2: "parseChillerIdFromQr (js ''temp-monitor://chiller/%E2%82%AC%F0%9F%98%80'') =
     Inr (Some [0x20AC, 0xD83D, 0xDE00])"
    by simp
  from h b 1 u c 2 show ?thesis by blast
qed

end
